theory Spec2Isabelle
  imports Main "HOL-Library.Word"
begin

section \<open>The LFU cache of LFUCache.cpp\<close>

text \<open>
  The class template \<open>LFUCache<K, V>\<close> keeps two hash maps: \<open>mKeysByFreq\<close> sends a
  frequency to a \<open>std::list<K>\<close> of the keys having it (front: most recently used) and
  \<open>mKeyMetaByKey\<close> sends a key to its \<open>KeyMeta\<close>: an iterator into that list, the
  frequency and the value.

  Modelling decisions.
  \<^item> A \<open>std::list\<close> is modelled as the sequence of its nodes, front to back, each a
    pair of the node's identity and the key it holds. An iterator is \<open>Some\<close> node, or
    \<open>None\<close> for the past-the-end / value-initialised iterator. \<open>push_front\<close> makes a
    new node; the field \<open>fresh_node\<close> numbers the allocations. An allocator may give a
    new node the address of a freed one; that is the same for the code as long as it
    keeps no iterator to a freed node, and the invariant \<open>links\<close> below shows that every
    iterator it keeps is a node of the list it is used on.
  \<^item> Undefined behaviour of the standard library (\<open>back\<close> and \<open>pop_back\<close> of an empty
    list, \<open>erase\<close> of an iterator that is not a node of the list) is the error value
    \<open>UndefinedBehaviour\<close>, so that its absence is something to prove.
  \<^item> \<open>std::unordered_map::operator[]\<close> inserts a value-initialised element for an absent
    key. For \<open>mKeysByFreq\<close> that element is the empty list and the code reads the map
    through \<open>operator[]\<close> only, so the map is a total function whose default is \<open>[]\<close>.
    For \<open>mKeyMetaByKey\<close> membership is observable (\<open>find\<close>, \<open>size\<close>, \<open>empty\<close>), so it
    is a partial map and \<open>operator[]\<close> is written out (\<open>subscript\<close> is the element
    it returns, \<open>subscript_ins\<close> the map it leaves).
  \<^item> \<open>size_t\<close> is a 64-bit word; \<open>size()\<close> is the number of entries, compared with the
    capacity read as a number.
  \<^item> Frequencies and \<open>mMinFreq\<close> are \<open>int\<close> in the source: 32-bit words here (\<open>cint\<close>),
    read as signed values by \<open>sint\<close>. The source's \<open>oldFreq + 1\<close> and \<open>mMinFreq += 1\<close> are
    the addition of words, which takes \<open>INT_MAX = 2147483647\<close> to \<open>-2147483648\<close> as the
    compiled code does (the C++ standard leaves signed overflow undefined). The keys of
    \<open>mKeysByFreq\<close> are these words.
  \<^item> The constraint \<open>DefaultContructible<V>\<close> is the type class \<open>default\<close>; \<open>V()\<close> is
    the constant \<open>default\<close>.
\<close>

datatype error = InvalidArgument | UndefinedBehaviour

type_synonym node = nat

type_synonym cint = "32 word"

type_synonym LstIter = "node option"

type_synonym 'k klist = "(node \<times> 'k) list"

record 'v KeyMeta =
  iter :: LstIter
  freq :: cint
  val :: 'v

record ('k, 'v) LFUCache =
  mCapacity :: "64 word"
  mMinFreq :: cint
  mKeysByFreq :: "cint \<Rightarrow> 'k klist"
  mKeyMetaByKey :: "'k \<rightharpoonup> 'v KeyMeta"
  fresh_node :: node

subsection \<open>The operations of \<open>std::list\<close> that the class uses\<close>

definition list_begin :: "'k klist \<Rightarrow> LstIter" where
  "list_begin l = (case l of [] \<Rightarrow> None | p # _ \<Rightarrow> Some (fst p))"

definition list_erase :: "'k klist \<Rightarrow> LstIter \<Rightarrow> error + 'k klist" where
  "list_erase l it =
     (case it of
        None \<Rightarrow> Inl UndefinedBehaviour
      | Some n \<Rightarrow>
          if n \<in> set (map fst l) then Inr (filter (\<lambda>p. fst p \<noteq> n) l)
          else Inl UndefinedBehaviour)"

definition list_back :: "'k klist \<Rightarrow> error + 'k" where
  "list_back l = (if l = [] then Inl UndefinedBehaviour else Inr (snd (last l)))"

definition list_pop_back :: "'k klist \<Rightarrow> error + 'k klist" where
  "list_pop_back l = (if l = [] then Inl UndefinedBehaviour else Inr (butlast l))"

subsection \<open>\<open>operator[]\<close> of \<open>mKeyMetaByKey\<close>\<close>

definition value_init :: "('v::default) KeyMeta" where
  "value_init = \<lparr>iter = None, freq = 0, val = default\<rparr>"

definition subscript :: "('k \<rightharpoonup> ('v::default) KeyMeta) \<Rightarrow> 'k \<Rightarrow> 'v KeyMeta" where
  "subscript m key = (case m key of None \<Rightarrow> value_init | Some x \<Rightarrow> x)"

definition subscript_ins :: "('k \<rightharpoonup> ('v::default) KeyMeta) \<Rightarrow> 'k \<Rightarrow> ('k \<rightharpoonup> 'v KeyMeta)" where
  "subscript_ins m key = (case m key of None \<Rightarrow> m(key \<mapsto> value_init) | Some x \<Rightarrow> m)"

subsection \<open>Constructor and queries\<close>

definition LFUCache_ctor :: "64 word \<Rightarrow> error + ('k, 'v) LFUCache" where
  "LFUCache_ctor capacity =
     (if capacity \<le> 0 then Inl InvalidArgument
      else Inr \<lparr>mCapacity = capacity, mMinFreq = 0, mKeysByFreq = (\<lambda>_. []),
                mKeyMetaByKey = Map.empty, fresh_node = 0\<rparr>)"

text \<open>
  A call \<open>LFUCache<int, int> c(n)\<close> with an \<open>int\<close> argument converts it to \<open>size_t\<close>,
  that is modulo \<open>2^64\<close>.
\<close>

definition size_t_of_int :: "int \<Rightarrow> 64 word" where
  "size_t_of_int n = word_of_int n"

definition contains :: "('k, 'v) LFUCache \<Rightarrow> 'k \<Rightarrow> bool" where
  "contains s key = (mKeyMetaByKey s key \<noteq> None)"

definition empty_lfu :: "('k, 'v) LFUCache \<Rightarrow> bool" where
  "empty_lfu s = (dom (mKeyMetaByKey s) = {})"

definition size_lfu :: "('k, 'v) LFUCache \<Rightarrow> nat" where
  "size_lfu s = card (dom (mKeyMetaByKey s))"

subsection \<open>touch, evict, put, get\<close>

text \<open>
  Each function follows its member function statement by statement. \<open>insert_new\<close> is
  the tail of \<open>put\<close> (the four statements after the call of \<open>evict\<close>), named because
  \<open>put\<close> reaches it from two branches.
\<close>

definition touch :: "('k, 'v::default) LFUCache \<Rightarrow> 'k \<Rightarrow> error + ('k, 'v) LFUCache" where
  "touch s key =
     (let keyMeta = subscript (mKeyMetaByKey s) key;
          index0 = subscript_ins (mKeyMetaByKey s) key;
          it = iter keyMeta;
          oldFreq = freq keyMeta;
          newFreq = oldFreq + 1
      in case list_erase (mKeysByFreq s oldFreq) it of
           Inl e \<Rightarrow> Inl e
         | Inr l \<Rightarrow>
             let byFreq1 = (mKeysByFreq s)(oldFreq := l);
                 index1 = index0(key \<mapsto> (subscript index0 key)\<lparr>freq := newFreq\<rparr>);
                 byFreq2 = byFreq1(newFreq := (fresh_node s, key) # byFreq1 newFreq);
                 index2 = index1(key \<mapsto> (subscript index1 key)\<lparr>iter := list_begin (byFreq2 newFreq)\<rparr>);
                 minFreq = (if byFreq2 (mMinFreq s) = [] then mMinFreq s + 1 else mMinFreq s)
             in Inr (s\<lparr>mMinFreq := minFreq, mKeysByFreq := byFreq2,
                       mKeyMetaByKey := index2, fresh_node := fresh_node s + 1\<rparr>))"

definition evict :: "('k, 'v) LFUCache \<Rightarrow> error + ('k, 'v) LFUCache" where
  "evict s =
     (case list_back (mKeysByFreq s (mMinFreq s)) of
        Inl e \<Rightarrow> Inl e
      | Inr key \<Rightarrow>
          (case list_pop_back (mKeysByFreq s (mMinFreq s)) of
             Inl e \<Rightarrow> Inl e
           | Inr l \<Rightarrow>
               Inr (s\<lparr>mKeyMetaByKey := (mKeyMetaByKey s)(key := None),
                       mKeysByFreq := (mKeysByFreq s)(mMinFreq s := l)\<rparr>)))"

definition insert_new :: "('k, 'v) LFUCache \<Rightarrow> 'k \<Rightarrow> 'v \<Rightarrow> ('k, 'v) LFUCache" where
  "insert_new s key v =
     (let minFreq = 1;
          byFreq = (mKeysByFreq s)(minFreq := (fresh_node s, key) # mKeysByFreq s minFreq);
          curKeyMetaData = \<lparr>iter = list_begin (byFreq minFreq), freq = 1, val = v\<rparr>
      in s\<lparr>mMinFreq := minFreq, mKeysByFreq := byFreq,
            mKeyMetaByKey := (mKeyMetaByKey s)(key \<mapsto> curKeyMetaData),
            fresh_node := fresh_node s + 1\<rparr>)"

definition put :: "('k, 'v::default) LFUCache \<Rightarrow> 'k \<Rightarrow> 'v \<Rightarrow> error + ('k, 'v) LFUCache" where
  "put s key v =
     (if contains s key then
        (case touch s key of
           Inl e \<Rightarrow> Inl e
         | Inr s1 \<Rightarrow>
             Inr (s1\<lparr>mKeyMetaByKey :=
                       (mKeyMetaByKey s1)(key \<mapsto> (subscript (mKeyMetaByKey s1) key)\<lparr>val := v\<rparr>)\<rparr>))
      else
        (case (if size_lfu s = unat (mCapacity s) then evict s else Inr s) of
           Inl e \<Rightarrow> Inl e
         | Inr s1 \<Rightarrow> Inr (insert_new s1 key v)))"

definition get :: "('k, 'v::default) LFUCache \<Rightarrow> 'k \<Rightarrow> error + ('v \<times> ('k, 'v) LFUCache)" where
  "get s key =
     (if contains s key then
        (case touch s key of
           Inl e \<Rightarrow> Inl e
         | Inr s1 \<Rightarrow>
             Inr (val (subscript (mKeyMetaByKey s1) key),
                  s1\<lparr>mKeyMetaByKey := subscript_ins (mKeyMetaByKey s1) key\<rparr>))
      else
        (let defaultVal = default
         in case put s key defaultVal of
              Inl e \<Rightarrow> Inl e
            | Inr s1 \<Rightarrow> Inr (defaultVal, s1)))"

subsection \<open>Sequences of calls\<close>

text \<open>
  A session is a construction followed by calls of the interface that the specification
  lists: \<open>contains\<close>, \<open>empty\<close>, \<open>size\<close>, \<open>get\<close> and \<open>put\<close>. The three queries are
  \<open>const\<close> member functions, so a step with one of them returns the state it got. The
  class declares \<open>touch\<close> and \<open>evict\<close> after \<open>public:\<close> as well; they are the steps
  that \<open>get\<close> and \<open>put\<close> are made of and are not calls of a session: \<open>evict\<close> alone
  removes a key without the insertion that sets \<open>mMinFreq\<close> again, and \<open>touch\<close> of an
  absent key or \<open>evict\<close> of an empty cache has undefined behaviour.
\<close>

datatype ('k, 'v) call = Contains 'k | Empty | Size | Get 'k | Put 'k 'v

datatype 'v answer = ABool bool | ASize nat | AVal 'v | AVoid

fun step :: "('k, 'v::default) LFUCache \<Rightarrow> ('k, 'v) call \<Rightarrow> error + ('v answer \<times> ('k, 'v) LFUCache)" where
  "step s (Contains key) = Inr (ABool (contains s key), s)"
| "step s Empty = Inr (ABool (empty_lfu s), s)"
| "step s Size = Inr (ASize (size_lfu s), s)"
| "step s (Get key) =
     (case get s key of Inl e \<Rightarrow> Inl e | Inr (v, s1) \<Rightarrow> Inr (AVal v, s1))"
| "step s (Put key v) =
     (case put s key v of Inl e \<Rightarrow> Inl e | Inr s1 \<Rightarrow> Inr (AVoid, s1))"

fun run :: "('k, 'v::default) LFUCache \<Rightarrow> ('k, 'v) call list \<Rightarrow> error + ('k, 'v) LFUCache" where
  "run s [] = Inr s"
| "run s (c # cs) = (case step s c of Inl e \<Rightarrow> Inl e | Inr (a, s1) \<Rightarrow> run s1 cs)"

definition session :: "64 word \<Rightarrow> ('k, 'v::default) call list \<Rightarrow> error + ('k, 'v) LFUCache" where
  "session capacity cs =
     (case LFUCache_ctor capacity of Inl e \<Rightarrow> Inl e | Inr s \<Rightarrow> run s cs)"

subsection \<open>The representation invariant\<close>

text \<open>
  \<open>links\<close>: every entry of the index has an iterator to a node of the bucket of the
  entry's frequency, and that node holds the entry's key; every node of a bucket belongs
  to the entry of its key; the nodes of a bucket are different and were all allocated
  before. \<open>bounded\<close>: the capacity is positive and the index is not larger. \<open>min_ne\<close>:
  unless the index is empty, the bucket at \<open>mMinFreq\<close> is not empty. These three make up
  \<open>invar\<close> and hold in every session, also after a counter has wrapped around.
  \<open>ordered\<close>: every frequency is at least 1 and no non-empty bucket has a frequency
  below \<open>mMinFreq\<close>, both as signed values; it holds as long as no counter has passed
  \<open>INT_MAX\<close>.
\<close>

definition links :: "('k, 'v) LFUCache \<Rightarrow> bool" where
  "links s \<longleftrightarrow>
     (\<forall>k m. mKeyMetaByKey s k = Some m \<longrightarrow>
        (\<exists>n. iter m = Some n \<and> (n, k) \<in> set (mKeysByFreq s (freq m)))) \<and>
     (\<forall>f n k. (n, k) \<in> set (mKeysByFreq s f) \<longrightarrow>
        n < fresh_node s \<and> (\<exists>m. mKeyMetaByKey s k = Some m \<and> freq m = f \<and> iter m = Some n)) \<and>
     (\<forall>f. distinct (map fst (mKeysByFreq s f)))"

definition bounded :: "('k, 'v) LFUCache \<Rightarrow> bool" where
  "bounded s \<longleftrightarrow>
     mCapacity s \<noteq> 0 \<and> finite (dom (mKeyMetaByKey s)) \<and> size_lfu s \<le> unat (mCapacity s)"

definition min_ne :: "('k, 'v) LFUCache \<Rightarrow> bool" where
  "min_ne s \<longleftrightarrow> (dom (mKeyMetaByKey s) \<noteq> {} \<longrightarrow> mKeysByFreq s (mMinFreq s) \<noteq> [])"


definition invar :: "('k, 'v) LFUCache \<Rightarrow> bool" where
  "invar s \<longleftrightarrow> links s \<and> bounded s \<and> min_ne s"

subsection \<open>The states that the operations produce\<close>

text \<open>
  Closed forms of the results, used to state what the operations do: \<open>touched\<close> is the
  state after a touch of a resident key with entry \<open>m\<close> whose iterator is node \<open>n\<close>,
  \<open>victim\<close> the key at the back of the bucket at \<open>mMinFreq\<close>, \<open>evicted\<close> the state after
  \<open>evict\<close>, \<open>set_val\<close> the overwrite of a value in \<open>put\<close>.
\<close>

definition touched :: "('k, 'v) LFUCache \<Rightarrow> 'k \<Rightarrow> 'v KeyMeta \<Rightarrow> node \<Rightarrow> ('k, 'v) LFUCache" where
  "touched s key m n =
     (let B = (mKeysByFreq s)
                (freq m := filter (\<lambda>p. fst p \<noteq> n) (mKeysByFreq s (freq m)),
                 freq m + 1 := (fresh_node s, key) # mKeysByFreq s (freq m + 1))
      in s\<lparr>mMinFreq := (if B (mMinFreq s) = [] then mMinFreq s + 1 else mMinFreq s),
            mKeysByFreq := B,
            mKeyMetaByKey := (mKeyMetaByKey s)(key \<mapsto> m\<lparr>freq := freq m + 1, iter := Some (fresh_node s)\<rparr>),
            fresh_node := fresh_node s + 1\<rparr>)"

definition victim :: "('k, 'v) LFUCache \<Rightarrow> 'k" where
  "victim s = snd (last (mKeysByFreq s (mMinFreq s)))"

definition evicted :: "('k, 'v) LFUCache \<Rightarrow> ('k, 'v) LFUCache" where
  "evicted s = s\<lparr>mKeyMetaByKey := (mKeyMetaByKey s)(victim s := None),
                  mKeysByFreq := (mKeysByFreq s)(mMinFreq s := butlast (mKeysByFreq s (mMinFreq s)))\<rparr>"

definition set_val :: "('k, 'v::default) LFUCache \<Rightarrow> 'k \<Rightarrow> 'v \<Rightarrow> ('k, 'v) LFUCache" where
  "set_val s key v =
     s\<lparr>mKeyMetaByKey := (mKeyMetaByKey s)(key \<mapsto> (subscript (mKeyMetaByKey s) key)\<lparr>val := v\<rparr>)\<rparr>"

subsection \<open>Histories\<close>

text \<open>
  Notions about the calls made so far, used to state recency and lifetime: a call
  \<open>touches\<close> a key when it is a \<open>get\<close> or a \<open>put\<close> of that key; \<open>age cs k\<close> is the number
  of calls at the end of \<open>cs\<close> that do not touch \<open>k\<close>, so the key touched longest ago
  has the greatest age; \<open>resident_run s cs k\<close> says that \<open>k\<close> is resident in \<open>s\<close> and
  after each call of \<open>cs\<close>; \<open>recency\<close> says that every bucket lists its keys by
  increasing age.
\<close>

fun touches :: "('k, 'v) call \<Rightarrow> 'k \<Rightarrow> bool" where
  "touches (Get key) k = (key = k)"
| "touches (Put key v) k = (key = k)"
| "touches (Contains key) k = False"
| "touches Empty k = False"
| "touches Size k = False"

fun resident_run :: "('k, 'v::default) LFUCache \<Rightarrow> ('k, 'v) call list \<Rightarrow> 'k \<Rightarrow> bool" where
  "resident_run s [] k = contains s k"
| "resident_run s (c # cs) k =
     (contains s k \<and>
      (case step s c of Inl e \<Rightarrow> False | Inr (a, s1) \<Rightarrow> resident_run s1 cs k))"



text \<open>
  \<open>at_limit s c\<close> says that the call \<open>c\<close> is a \<open>get\<close> or \<open>put\<close> of a resident key whose
  frequency is \<open>INT_MAX\<close>, so that its touch computes \<open>INT_MAX + 1\<close>;
  \<open>overflow_free s cs\<close> that no call of \<open>cs\<close>, run from \<open>s\<close>, is at the limit in the
  state it is made in; \<open>tame c cs\<close> that the session of capacity \<open>c\<close> with the calls
  \<open>cs\<close> is constructed and overflow free.
\<close>

definition INT_MAX :: cint where
  "INT_MAX = 2147483647"

fun at_limit :: "('k, 'v) LFUCache \<Rightarrow> ('k, 'v) call \<Rightarrow> bool" where
  "at_limit s (Get key) =
     (case mKeyMetaByKey s key of None \<Rightarrow> False | Some m \<Rightarrow> freq m = INT_MAX)"
| "at_limit s (Put key v) =
     (case mKeyMetaByKey s key of None \<Rightarrow> False | Some m \<Rightarrow> freq m = INT_MAX)"
| "at_limit s (Contains key) = False"
| "at_limit s Empty = False"
| "at_limit s Size = False"

fun overflow_free :: "('k, 'v::default) LFUCache \<Rightarrow> ('k, 'v) call list \<Rightarrow> bool" where
  "overflow_free s [] = True"
| "overflow_free s (c # cs) =
     (\<not> at_limit s c \<and>
      (case step s c of Inl e \<Rightarrow> False | Inr (a, s1) \<Rightarrow> overflow_free s1 cs))"

definition tame :: "64 word \<Rightarrow> ('k, 'v::default) call list \<Rightarrow> bool" where
  "tame capacity cs =
     (case LFUCache_ctor capacity of Inl e \<Rightarrow> False | Inr s \<Rightarrow> overflow_free s cs)"

subsection \<open>Sessions that reach the limit\<close>

text \<open>
  \<open>spin_calls n\<close> is \<open>put(1, 10)\<close> followed by \<open>n\<close> calls of \<open>get(1)\<close>, and \<open>spin_state\<close>
  the state it ends in. \<open>limit_state\<close> is that state for capacity 1 and
  \<open>n = 2147483646\<close>, where the frequency of key 1 is \<open>INT_MAX\<close>, and \<open>limit_after\<close> the
  state after one more \<open>get(1)\<close>. \<open>wrap_state\<close> is the state of a cache of capacity 2
  after \<open>spin_calls 2147483646\<close>, \<open>put(2, 20)\<close> and \<open>get(1)\<close>, and \<open>wrap_after\<close> the state
  after \<open>put(3, 30)\<close> on it.
\<close>

definition spin_calls :: "nat \<Rightarrow> (int, int) call list" where
  "spin_calls n = Put 1 10 # replicate n (Get 1)"

definition spin_state :: "64 word \<Rightarrow> nat \<Rightarrow> (int, int) LFUCache" where
  "spin_state c n =
     \<lparr>mCapacity = c, mMinFreq = of_nat (Suc n),
      mKeysByFreq = (\<lambda>_. [])(of_nat (Suc n) := [(n, 1)]),
      mKeyMetaByKey = [1 \<mapsto> \<lparr>iter = Some n, freq = of_nat (Suc n), val = 10\<rparr>],
      fresh_node = Suc n\<rparr>"

definition limit_state :: "(int, int) LFUCache" where
  "limit_state =
     \<lparr>mCapacity = 1, mMinFreq = 2147483647,
      mKeysByFreq = (\<lambda>_. [])(2147483647 := [(2147483646, 1)]),
      mKeyMetaByKey = [1 \<mapsto> \<lparr>iter = Some 2147483646, freq = 2147483647, val = 10\<rparr>],
      fresh_node = 2147483647\<rparr>"

definition limit_after :: "(int, int) LFUCache" where
  "limit_after =
     \<lparr>mCapacity = 1, mMinFreq = 2147483648,
      mKeysByFreq = (\<lambda>_. [])(2147483648 := [(2147483647, 1)]),
      mKeyMetaByKey = [1 \<mapsto> \<lparr>iter = Some 2147483647, freq = 2147483648, val = 10\<rparr>],
      fresh_node = 2147483648\<rparr>"




subsection \<open>The instance of the source and two sessions\<close>

text \<open>
  The source instantiates the template at \<open>LFUCache<int, int>\<close>; \<open>int()\<close> is 0.
\<close>

instantiation int :: default
begin

definition default_int :: int where
  "default_int = 0"

instance ..

end

text \<open>
  \<open>demo_state\<close> is the cache of capacity 2 after \<open>put(1, 10); put(2, 20); get(1)\<close>: it
  is full, key 1 has frequency 2 and key 2 has frequency 1. \<open>tie_state\<close> is the cache of
  capacity 3 after \<open>put(1, 10); put(2, 20); put(3, 30); get(3)\<close>: it is full, keys 1 and 2
  have frequency 1 and key 1 is the one touched longer ago.
\<close>

definition demo_calls :: "(int, int) call list" where
  "demo_calls = [Put 1 10, Put 2 20, Get 1]"

definition demo_state :: "(int, int) LFUCache" where
  "demo_state =
     \<lparr>mCapacity = 2, mMinFreq = 1,
      mKeysByFreq = (\<lambda>_. [])(1 := [(1, 2)], 2 := [(2, 1)]),
      mKeyMetaByKey = [1 \<mapsto> \<lparr>iter = Some 2, freq = 2, val = 10\<rparr>,
                       2 \<mapsto> \<lparr>iter = Some 1, freq = 1, val = 20\<rparr>],
      fresh_node = 3\<rparr>"

definition demo_more :: "(int, int) call list" where
  "demo_more = [Get 1, Contains 2, Put 1 5, Get 2, Put 3 7]"



section \<open>The invariant is kept\<close>

lemma linksD1:
  "links s \<Longrightarrow> mKeyMetaByKey s k = Some m \<Longrightarrow>
     \<exists>n. iter m = Some n \<and> (n, k) \<in> set (mKeysByFreq s (freq m))"
  unfolding links_def by blast

lemma linksD2:
  "links s \<Longrightarrow> (n, k) \<in> set (mKeysByFreq s f) \<Longrightarrow>
     n < fresh_node s \<and> (\<exists>m. mKeyMetaByKey s k = Some m \<and> freq m = f \<and> iter m = Some n)"
  unfolding links_def by blast

lemma linksD3: "links s \<Longrightarrow> distinct (map fst (mKeysByFreq s f))"
  unfolding links_def by blast

lemma distinct_fst_unique:
  "distinct (map fst l) \<Longrightarrow> (n, a) \<in> set l \<Longrightarrow> (n, b) \<in> set l \<Longrightarrow> a = b"
  by (meson eq_key_imp_eq_value)

lemma touch_resident:
  assumes "mKeyMetaByKey s key = Some m" "iter m = Some n"
    "(n, key) \<in> set (mKeysByFreq s (freq m))"
  shows "touch s key = Inr (touched s key m n)"
proof -
  have "n \<in> fst ` set (mKeysByFreq s (freq m))"
    using assms(3) by force
  then show ?thesis
    using assms(1,2)
    by (simp add: touch_def touched_def subscript_def subscript_ins_def list_erase_def
        list_begin_def Let_def)
qed

lemma touch_links:
  assumes "links s" "mKeyMetaByKey s key = Some m"
  shows "\<exists>n. iter m = Some n \<and> (n, key) \<in> set (mKeysByFreq s (freq m)) \<and>
             touch s key = Inr (touched s key m n)"
  using linksD1[OF assms] touch_resident[OF assms(2)] by blast

lemma touched_links:
  assumes L: "links s" and K: "mKeyMetaByKey s key = Some m" and I: "iter m = Some n"
    and N: "(n, key) \<in> set (mKeysByFreq s (freq m))"
  shows "links (touched s key m n)"
proof -
  let ?f = "freq m"
  let ?t = "touched s key m n"
  have fresh: "\<And>f n' k. (n', k) \<in> set (mKeysByFreq s f) \<Longrightarrow> n' < fresh_node s"
    using linksD2[OF L] by blast
  have B: "mKeysByFreq ?t = (mKeysByFreq s)
                (?f := filter (\<lambda>p. fst p \<noteq> n) (mKeysByFreq s ?f),
                 ?f + 1 := (fresh_node s, key) # mKeysByFreq s (?f + 1))"
    by (simp add: touched_def Let_def)
  have X: "mKeyMetaByKey ?t = (mKeyMetaByKey s)(key \<mapsto> m\<lparr>freq := ?f + 1, iter := Some (fresh_node s)\<rparr>)"
    by (simp add: touched_def Let_def)
  have F: "fresh_node ?t = fresh_node s + 1"
    by (simp add: touched_def Let_def)
  have p1: "\<exists>n'. iter m' = Some n' \<and> (n', k) \<in> set (mKeysByFreq ?t (freq m'))"
    if "mKeyMetaByKey ?t k = Some m'" for k m'
  proof (cases "k = key")
    case True
    then have "m' = m\<lparr>freq := ?f + 1, iter := Some (fresh_node s)\<rparr>"
      using that X by simp
    then show ?thesis using linksD1[OF L K] B True by simp
  next
    case False
    then have k: "mKeyMetaByKey s k = Some m'" using that X by simp
    from linksD1[OF L k] obtain n' where
      n': "iter m' = Some n'" "(n', k) \<in> set (mKeysByFreq s (freq m'))"
      by blast
    have "n' \<noteq> n" if "freq m' = ?f"
      using distinct_fst_unique[OF linksD3[OF L, of ?f], of n key k] N n'(2) that False by auto
    then have "(n', k) \<in> set (mKeysByFreq ?t (freq m'))"
      using n'(2) B by auto
    then show ?thesis using n' by blast
  qed
  have p2: "n' < fresh_node ?t \<and>
      (\<exists>m'. mKeyMetaByKey ?t k = Some m' \<and> freq m' = f \<and> iter m' = Some n')"
    if mem: "(n', k) \<in> set (mKeysByFreq ?t f)" for f n' k
  proof -
    consider (new) "f = ?f + 1" "n' = fresh_node s" "k = key"
      | (up) "f = ?f + 1" "(n', k) \<in> set (mKeysByFreq s f)"
      | (old) "f = ?f" "(n', k) \<in> set (mKeysByFreq s f)" "n' \<noteq> n"
      | (other) "f \<noteq> ?f" "f \<noteq> ?f + 1" "(n', k) \<in> set (mKeysByFreq s f)"
    proof (cases "f = ?f + 1")
      case True
      then have "(n', k) = (fresh_node s, key) \<or> (n', k) \<in> set (mKeysByFreq s f)"
        using mem B by simp
      then show ?thesis using True new up by blast
    next
      case f1: False
      show ?thesis
      proof (cases "f = ?f")
        case True
        then have "(n', k) \<in> set (mKeysByFreq s f) \<and> n' \<noteq> n"
          using mem B by simp
        then show ?thesis using True old by blast
      next
        case False
        then have "(n', k) \<in> set (mKeysByFreq s f)"
          using mem B f1 by simp
        then show ?thesis using False f1 other by blast
      qed
    qed
    then show ?thesis
    proof cases
      case new
      then show ?thesis using X F by simp
    next
      case up
      from linksD2[OF L up(2)] obtain m' where
        m': "n' < fresh_node s" "mKeyMetaByKey s k = Some m'" "freq m' = f" "iter m' = Some n'"
        by blast
      have "k \<noteq> key" using m' K up(1) by auto
      then show ?thesis using m' X F by simp
    next
      case old
      from linksD2[OF L old(2)] obtain m' where
        m': "n' < fresh_node s" "mKeyMetaByKey s k = Some m'" "freq m' = f" "iter m' = Some n'"
        by blast
      have "k \<noteq> key" using m' K I old(3) by auto
      then show ?thesis using m' X F by simp
    next
      case other
      from linksD2[OF L other(3)] obtain m' where
        m': "n' < fresh_node s" "mKeyMetaByKey s k = Some m'" "freq m' = f" "iter m' = Some n'"
        by blast
      have "k \<noteq> key" using m' K other(1) by auto
      then show ?thesis using m' X F by simp
    qed
  qed
  have p3: "distinct (map fst (mKeysByFreq ?t f))" for f
  proof -
    have "fresh_node s \<notin> fst ` set (mKeysByFreq s (?f + 1))"
      using fresh by force
    then show ?thesis
      using linksD3[OF L] B by (auto simp: distinct_map_filter)
  qed
  show ?thesis
    unfolding links_def using p1 p2 p3 by blast
qed

lemma touched_dom:
  "mKeyMetaByKey s key = Some m \<Longrightarrow> dom (mKeyMetaByKey (touched s key m n)) = dom (mKeyMetaByKey s)"
  by (auto simp: touched_def Let_def)

lemma touched_bounded:
  "bounded s \<Longrightarrow> mKeyMetaByKey s key = Some m \<Longrightarrow> bounded (touched s key m n)"
  unfolding bounded_def size_lfu_def
  by (simp add: touched_dom) (simp add: touched_def Let_def)

lemma touched_min_ne:
  assumes M: "min_ne s" and K: "mKeyMetaByKey s key = Some m"
  shows "min_ne (touched s key m n)"
proof -
  let ?f = "freq m"
  let ?t = "touched s key m n"
  let ?B = "(mKeysByFreq s)
                (?f := filter (\<lambda>p. fst p \<noteq> n) (mKeysByFreq s ?f),
                 ?f + 1 := (fresh_node s, key) # mKeysByFreq s (?f + 1))"
  have B: "mKeysByFreq ?t = ?B"
    by (simp add: touched_def Let_def)
  have Mn: "mMinFreq ?t = (if ?B (mMinFreq s) = [] then mMinFreq s + 1 else mMinFreq s)"
    by (simp add: touched_def Let_def)
  have ne: "dom (mKeyMetaByKey s) \<noteq> {}" using K by auto
  with M have m1: "mKeysByFreq s (mMinFreq s) \<noteq> []"
    unfolding min_ne_def by blast
  have up: "?B (?f + 1) \<noteq> []" by simp
  have other: "?B g = mKeysByFreq s g" if "g \<noteq> ?f" "g \<noteq> ?f + 1" for g
    using that by simp
  have "?B (mMinFreq ?t) \<noteq> []"
  proof (cases "?B (mMinFreq s) = []")
    case True
    have "mMinFreq s = ?f"
    proof (rule ccontr)
      assume "mMinFreq s \<noteq> ?f"
      moreover have "mMinFreq s \<noteq> ?f + 1" using True up by auto
      ultimately show False using other True m1 by simp
    qed
    then show ?thesis using True Mn by simp
  next
    case False
    then show ?thesis using Mn by simp
  qed
  then show ?thesis unfolding min_ne_def B by blast
qed

lemma touch_invar:
  assumes "invar s" "mKeyMetaByKey s key = Some m"
  shows "\<exists>n. iter m = Some n \<and> (n, key) \<in> set (mKeysByFreq s (freq m)) \<and>
             touch s key = Inr (touched s key m n) \<and> invar (touched s key m n)"
proof -
  from assms have L: "links s" and Bd: "bounded s" and M: "min_ne s"
    by (simp_all add: invar_def)
  from touch_links[OF L assms(2)] obtain n where
    n: "iter m = Some n" "(n, key) \<in> set (mKeysByFreq s (freq m))"
       "touch s key = Inr (touched s key m n)"
    by blast
  have "invar (touched s key m n)"
    unfolding invar_def
    using touched_links[OF L assms(2) n(1,2)] touched_bounded[OF Bd assms(2)]
      touched_min_ne[OF M assms(2)] by blast
  then show ?thesis using n by blast
qed

lemma evict_nonempty:
  "mKeysByFreq s (mMinFreq s) \<noteq> [] \<Longrightarrow> evict s = Inr (evicted s)"
  by (simp add: evict_def evicted_def victim_def list_back_def list_pop_back_def)

lemma evict_empty:
  "mKeysByFreq s (mMinFreq s) = [] \<Longrightarrow> evict s = Inl UndefinedBehaviour"
  by (simp add: evict_def list_back_def)

lemma victim_resident:
  assumes L: "links s" and ne: "mKeysByFreq s (mMinFreq s) \<noteq> []"
  shows "\<exists>m. mKeyMetaByKey s (victim s) = Some m \<and> freq m = mMinFreq s"
proof -
  have "last (mKeysByFreq s (mMinFreq s)) \<in> set (mKeysByFreq s (mMinFreq s))"
    using ne by simp
  then have "(fst (last (mKeysByFreq s (mMinFreq s))), victim s) \<in> set (mKeysByFreq s (mMinFreq s))"
    by (simp add: victim_def)
  from linksD2[OF L this] show ?thesis by blast
qed

lemma set_butlast_distinct:
  assumes d: "distinct l" and ne: "l \<noteq> []"
  shows "set (butlast l) = set l - {last l}"
proof -
  have eq: "butlast l @ [last l] = l" using ne by simp
  have "distinct (butlast l @ [last l])" using d by (simp only: eq)
  then have notin: "last l \<notin> set (butlast l)" by simp
  have "set l = set (butlast l @ [last l])" by (simp only: eq)
  then have "set l = set (butlast l) \<union> {last l}" by simp
  then show ?thesis using notin by blast
qed

lemma evicted_links:
  assumes L: "links s" and ne: "mKeysByFreq s (mMinFreq s) \<noteq> []"
  shows "links (evicted s)"
proof -
  let ?l = "mKeysByFreq s (mMinFreq s)"
  let ?e = "evicted s"
  have dl: "distinct ?l" using linksD3[OF L, of "mMinFreq s"] by (simp add: distinct_map)
  have sb: "set (butlast ?l) = set ?l - {last ?l}"
    using set_butlast_distinct[OF dl ne] .
  have lastin: "(fst (last ?l), victim s) \<in> set ?l"
    using ne by (simp add: victim_def)
  have B: "mKeysByFreq ?e = (mKeysByFreq s)(mMinFreq s := butlast ?l)"
    by (simp add: evicted_def)
  have X: "mKeyMetaByKey ?e = (mKeyMetaByKey s)(victim s := None)"
    by (simp add: evicted_def)
  have F: "fresh_node ?e = fresh_node s"
    by (simp add: evicted_def)
  have p1: "\<exists>n'. iter m' = Some n' \<and> (n', k) \<in> set (mKeysByFreq ?e (freq m'))"
    if idx: "mKeyMetaByKey ?e k = Some m'" for k m'
  proof -
    have kv: "k \<noteq> victim s" and k: "mKeyMetaByKey s k = Some m'"
      using idx X by (auto split: if_splits)
    from linksD1[OF L k] obtain n' where
      n': "iter m' = Some n'" "(n', k) \<in> set (mKeysByFreq s (freq m'))"
      by blast
    have nl: "(n', k) \<noteq> last ?l" using kv by (metis snd_conv victim_def)
    have "(n', k) \<in> set (mKeysByFreq ?e (freq m'))"
    proof (cases "freq m' = mMinFreq s")
      case True
      with n'(2) have "(n', k) \<in> set ?l" by simp
      with nl have "(n', k) \<in> set ?l - {last ?l}" by blast
      then have "(n', k) \<in> set (butlast ?l)" by (simp only: sb)
      then show ?thesis using True B by simp
    next
      case False
      then show ?thesis using n'(2) B by simp
    qed
    then show ?thesis using n' by blast
  qed
  have p2: "n' < fresh_node ?e \<and>
      (\<exists>m'. mKeyMetaByKey ?e k = Some m' \<and> freq m' = f \<and> iter m' = Some n')"
    if mem: "(n', k) \<in> set (mKeysByFreq ?e f)" for f n' k
  proof -
    have mem': "(n', k) \<in> set (mKeysByFreq s f)"
      using mem B by (cases "f = mMinFreq s") (auto dest: in_set_butlastD)
    from linksD2[OF L mem'] obtain m' where
      m': "n' < fresh_node s" "mKeyMetaByKey s k = Some m'" "freq m' = f" "iter m' = Some n'"
      by blast
    have "k \<noteq> victim s"
    proof
      assume kv: "k = victim s"
      from linksD2[OF L lastin] m' kv have f: "f = mMinFreq s" and n: "n' = fst (last ?l)"
        by auto
      then have il: "(n', k) = last ?l" using kv by (simp add: victim_def)
      from mem B f have "(n', k) \<in> set (butlast ?l)" by simp
      then have "(n', k) \<in> set ?l - {last ?l}" by (simp only: sb)
      with il show False by blast
    qed
    then show ?thesis using m' X F by simp
  qed
  have p3: "distinct (map fst (mKeysByFreq ?e f))" for f
  proof (cases "f = mMinFreq s")
    case True
    have "distinct (butlast (map fst ?l))"
      using linksD3[OF L, of "mMinFreq s"] by (rule distinct_butlast)
    then have "distinct (map fst (butlast ?l))"
      by (simp only: map_butlast)
    then show ?thesis using True B by simp
  next
    case False
    then show ?thesis using linksD3[OF L, of f] B by simp
  qed
  show ?thesis
    unfolding links_def using p1 p2 p3 by blast
qed

lemma insert_new_links:
  assumes L: "links s" and K: "mKeyMetaByKey s key = None"
  shows "links (insert_new s key v)"
proof -
  let ?i = "insert_new s key v"
  have B: "mKeysByFreq ?i = (mKeysByFreq s)(1 := (fresh_node s, key) # mKeysByFreq s 1)"
    by (simp add: insert_new_def Let_def)
  have X: "mKeyMetaByKey ?i = (mKeyMetaByKey s)(key \<mapsto> \<lparr>iter = Some (fresh_node s), freq = 1, val = v\<rparr>)"
    by (simp add: insert_new_def Let_def list_begin_def)
  have F: "fresh_node ?i = fresh_node s + 1"
    by (simp add: insert_new_def Let_def)
  have p1: "\<exists>n'. iter m' = Some n' \<and> (n', k) \<in> set (mKeysByFreq ?i (freq m'))"
    if idx: "mKeyMetaByKey ?i k = Some m'" for k m'
  proof (cases "k = key")
    case True
    then have "m' = \<lparr>iter = Some (fresh_node s), freq = 1, val = v\<rparr>"
      using idx X by simp
    then show ?thesis using B True by simp
  next
    case False
    then have k: "mKeyMetaByKey s k = Some m'" using idx X by simp
    from linksD1[OF L k] obtain n' where
      n': "iter m' = Some n'" "(n', k) \<in> set (mKeysByFreq s (freq m'))"
      by blast
    then have "(n', k) \<in> set (mKeysByFreq ?i (freq m'))"
      using B by auto
    then show ?thesis using n' by blast
  qed
  have p2: "n' < fresh_node ?i \<and>
      (\<exists>m'. mKeyMetaByKey ?i k = Some m' \<and> freq m' = f \<and> iter m' = Some n')"
    if mem: "(n', k) \<in> set (mKeysByFreq ?i f)" for f n' k
  proof -
    have "(f = 1 \<and> n' = fresh_node s \<and> k = key) \<or> (n', k) \<in> set (mKeysByFreq s f)"
      using mem B by (cases "f = 1") simp_all
    then show ?thesis
    proof
      assume "f = 1 \<and> n' = fresh_node s \<and> k = key"
      then show ?thesis using X F by simp
    next
      assume mem': "(n', k) \<in> set (mKeysByFreq s f)"
      from linksD2[OF L mem'] obtain m' where
        m': "n' < fresh_node s" "mKeyMetaByKey s k = Some m'" "freq m' = f" "iter m' = Some n'"
        by blast
      have "k \<noteq> key" using m' K by auto
      then show ?thesis using m' X F by simp
    qed
  qed
  have p3: "distinct (map fst (mKeysByFreq ?i f))" for f
  proof -
    have "fresh_node s \<notin> fst ` set (mKeysByFreq s 1)"
      using linksD2[OF L] by force
    then show ?thesis
      using linksD3[OF L] B by auto
  qed
  show ?thesis
    unfolding links_def using p1 p2 p3 by blast
qed

lemma insert_new_min_ne: "min_ne (insert_new s key v)"
  by (simp add: min_ne_def insert_new_def Let_def)

lemma set_val_links:
  assumes L: "links s" and K: "mKeyMetaByKey s key = Some m"
  shows "links (set_val s key v)"
proof -
  let ?u = "set_val s key v"
  have X: "mKeyMetaByKey ?u = (mKeyMetaByKey s)(key \<mapsto> m\<lparr>val := v\<rparr>)"
    using K by (simp add: set_val_def subscript_def)
  have B: "mKeysByFreq ?u = mKeysByFreq s" and F: "fresh_node ?u = fresh_node s"
    by (simp_all add: set_val_def)
  have p1: "\<exists>n'. iter m' = Some n' \<and> (n', k) \<in> set (mKeysByFreq ?u (freq m'))"
    if idx: "mKeyMetaByKey ?u k = Some m'" for k m'
  proof (cases "k = key")
    case True
    then have "m' = m\<lparr>val := v\<rparr>" using idx X by simp
    then show ?thesis using linksD1[OF L K] B True by simp
  next
    case False
    then have "mKeyMetaByKey s k = Some m'" using idx X by simp
    from linksD1[OF L this] show ?thesis using B by simp
  qed
  have p2: "n' < fresh_node ?u \<and>
      (\<exists>m'. mKeyMetaByKey ?u k = Some m' \<and> freq m' = f \<and> iter m' = Some n')"
    if mem: "(n', k) \<in> set (mKeysByFreq ?u f)" for f n' k
  proof -
    from mem B have "(n', k) \<in> set (mKeysByFreq s f)" by simp
    from linksD2[OF L this] obtain m' where
      m': "n' < fresh_node s" "mKeyMetaByKey s k = Some m'" "freq m' = f" "iter m' = Some n'"
      by blast
    show ?thesis
    proof (cases "k = key")
      case True
      then have "m' = m" using m'(2) K by simp
      then show ?thesis using m' X F True by simp
    next
      case False
      then show ?thesis using m' X F by simp
    qed
  qed
  have p3: "distinct (map fst (mKeysByFreq ?u f))" for f
    using linksD3[OF L] B by simp
  show ?thesis
    unfolding links_def using p1 p2 p3 by blast
qed

lemma set_val_dom:
  "mKeyMetaByKey s key = Some m \<Longrightarrow> dom (mKeyMetaByKey (set_val s key v)) = dom (mKeyMetaByKey s)"
  by (auto simp: set_val_def)

lemma set_val_invar:
  assumes "invar s" "mKeyMetaByKey s key = Some m"
  shows "invar (set_val s key v)"
proof -
  have "bounded (set_val s key v)"
    using assms unfolding invar_def bounded_def size_lfu_def
    by (simp add: set_val_dom) (simp add: set_val_def)
  moreover have "min_ne (set_val s key v)"
    using assms unfolding invar_def min_ne_def
    by (simp add: set_val_dom) (simp add: set_val_def)
  ultimately show ?thesis
    using set_val_links[of s key m v] assms by (simp add: invar_def)
qed

lemma touched_lookup:
  "mKeyMetaByKey (touched s key m n) key = Some (m\<lparr>freq := freq m + 1, iter := Some (fresh_node s)\<rparr>)"
  by (simp add: touched_def Let_def)

lemma put_resident:
  assumes "invar s" "mKeyMetaByKey s key = Some m"
  shows "\<exists>n. iter m = Some n \<and> (n, key) \<in> set (mKeysByFreq s (freq m)) \<and>
             put s key v = Inr (set_val (touched s key m n) key v) \<and>
             invar (set_val (touched s key m n) key v)"
proof -
  from touch_invar[OF assms] obtain n where
    n: "iter m = Some n" "(n, key) \<in> set (mKeysByFreq s (freq m))"
       "touch s key = Inr (touched s key m n)" "invar (touched s key m n)"
    by blast
  have "put s key v = Inr (set_val (touched s key m n) key v)"
    using assms(2) n(3) by (simp add: put_def contains_def set_val_def)
  moreover have "invar (set_val (touched s key m n) key v)"
    using set_val_invar[OF n(4) touched_lookup] .
  ultimately show ?thesis using n by blast
qed

lemma get_resident:
  assumes "invar s" "mKeyMetaByKey s key = Some m"
  shows "\<exists>n. iter m = Some n \<and> (n, key) \<in> set (mKeysByFreq s (freq m)) \<and>
             get s key = Inr (val m, touched s key m n) \<and> invar (touched s key m n)"
proof -
  from touch_invar[OF assms] obtain n where
    n: "iter m = Some n" "(n, key) \<in> set (mKeysByFreq s (freq m))"
       "touch s key = Inr (touched s key m n)" "invar (touched s key m n)"
    by blast
  have "get s key = Inr (val m, touched s key m n)"
    using assms(2) n(3)
    by (simp add: get_def contains_def subscript_def subscript_ins_def touched_lookup)
  then show ?thesis using n by blast
qed

lemma evicted_dom:
  "dom (mKeyMetaByKey (evicted s)) = dom (mKeyMetaByKey s) - {victim s}"
  by (auto simp: evicted_def)

lemma insert_new_dom:
  "dom (mKeyMetaByKey (insert_new s key v)) = insert key (dom (mKeyMetaByKey s))"
  by (auto simp: insert_new_def Let_def)

lemma full_min_bucket:
  assumes I: "invar s" and full: "size_lfu s = unat (mCapacity s)"
  shows "mKeysByFreq s (mMinFreq s) \<noteq> []"
proof -
  from I have "mCapacity s \<noteq> 0" by (simp add: invar_def bounded_def)
  then have "0 < unat (mCapacity s)" by (simp add: unat_gt_0)
  with full have "card (dom (mKeyMetaByKey s)) \<noteq> 0" by (simp add: size_lfu_def)
  then have "dom (mKeyMetaByKey s) \<noteq> {}" by auto
  with I show ?thesis by (simp add: invar_def min_ne_def)
qed

lemma put_absent:
  assumes I: "invar s" and K: "mKeyMetaByKey s key = None"
  shows "put s key v =
           Inr (insert_new (if size_lfu s = unat (mCapacity s) then evicted s else s) key v) \<and>
         invar (insert_new (if size_lfu s = unat (mCapacity s) then evicted s else s) key v)"
proof -
  from I have L: "links s" and fin: "finite (dom (mKeyMetaByKey s))"
    and cap: "mCapacity s \<noteq> 0" and le: "size_lfu s \<le> unat (mCapacity s)"
    by (simp_all add: invar_def bounded_def)
  define s1 where "s1 = (if size_lfu s = unat (mCapacity s) then evicted s else s)"
  have ev: "(if size_lfu s = unat (mCapacity s) then evict s else Inr s) = Inr s1"
    using evict_nonempty[OF full_min_bucket[OF I]] by (simp add: s1_def)
  have put_eq: "put s key v = Inr (insert_new s1 key v)"
    using K ev by (simp add: put_def contains_def)
  have L1: "links s1"
    using L evicted_links[OF L full_min_bucket[OF I]] by (simp add: s1_def)
  have K1: "mKeyMetaByKey s1 key = None"
    using K by (simp add: s1_def evicted_def)
  have cap1: "mCapacity (insert_new s1 key v) = mCapacity s"
    by (simp add: s1_def insert_new_def evicted_def Let_def)
  have fin1: "finite (dom (mKeyMetaByKey s1))"
    using fin by (simp add: s1_def evicted_dom)
  have lt: "card (dom (mKeyMetaByKey s1)) < unat (mCapacity s)"
  proof (cases "size_lfu s = unat (mCapacity s)")
    case True
    from victim_resident[OF L full_min_bucket[OF I True]]
    have "victim s \<in> dom (mKeyMetaByKey s)" by auto
    then have "card (dom (mKeyMetaByKey s) - {victim s}) < card (dom (mKeyMetaByKey s))"
      using fin by (metis card_Diff1_less)
    then show ?thesis using True by (simp add: s1_def evicted_dom size_lfu_def)
  next
    case False
    then show ?thesis using le by (simp add: s1_def size_lfu_def)
  qed
  have "key \<notin> dom (mKeyMetaByKey s1)" using K1 by auto
  then have "card (insert key (dom (mKeyMetaByKey s1))) = Suc (card (dom (mKeyMetaByKey s1)))"
    using fin1 by simp
  then have "card (dom (mKeyMetaByKey (insert_new s1 key v))) \<le> unat (mCapacity s)"
    using lt by (simp add: insert_new_dom)
  moreover have "finite (dom (mKeyMetaByKey (insert_new s1 key v)))"
    using fin1 by (simp add: insert_new_dom)
  ultimately have "bounded (insert_new s1 key v)"
    unfolding bounded_def size_lfu_def using cap cap1 by simp
  then have "invar (insert_new s1 key v)"
    unfolding invar_def using insert_new_links[OF L1 K1] insert_new_min_ne[of s1 key v] by blast
  then show ?thesis using put_eq unfolding s1_def by blast
qed

lemma put_invar:
  assumes "invar s"
  shows "\<exists>s'. put s key v = Inr s' \<and> invar s'"
proof (cases "mKeyMetaByKey s key")
  case None
  from put_absent[OF assms None] show ?thesis by blast
next
  case (Some m)
  from put_resident[OF assms Some] show ?thesis by blast
qed

lemma get_absent:
  "mKeyMetaByKey s key = None \<Longrightarrow>
     get s key = (case put s key default of Inl e \<Rightarrow> Inl e | Inr s1 \<Rightarrow> Inr (default, s1))"
  by (simp add: get_def contains_def)

lemma get_invar:
  assumes "invar s"
  shows "\<exists>v s'. get s key = Inr (v, s') \<and> invar s'"
proof (cases "mKeyMetaByKey s key")
  case None
  from put_absent[OF assms None, of default] show ?thesis
    by (simp add: get_absent[OF None])
next
  case (Some m)
  from get_resident[OF assms Some] show ?thesis by blast
qed

lemma step_invar:
  assumes "invar s"
  shows "\<exists>a s'. step s c = Inr (a, s') \<and> invar s'"
proof (cases c)
  case (Get key)
  from get_invar[OF assms, of key] show ?thesis using Get by auto
next
  case (Put key v)
  from put_invar[OF assms, of key v] show ?thesis using Put by auto
qed (use assms in simp_all)

lemma run_invar:
  "invar s \<Longrightarrow> \<exists>s'. run s cs = Inr s' \<and> invar s'"
proof (induction cs arbitrary: s)
  case Nil
  then show ?case by simp
next
  case (Cons c cs)
  from step_invar[OF Cons.prems, of c] obtain a s1 where
    s1: "step s c = Inr (a, s1)" "invar s1" by blast
  from Cons.IH[OF s1(2)] show ?case using s1(1) by simp
qed

lemma ctor_invar:
  "capacity \<noteq> 0 \<Longrightarrow>
     \<exists>s. (LFUCache_ctor capacity :: error + ('k, 'v) LFUCache) = Inr s \<and> invar s \<and> mCapacity s = capacity"
  by (simp add: LFUCache_ctor_def invar_def links_def bounded_def min_ne_def size_lfu_def)

lemma run_snoc:
  "run s (cs @ [c]) =
     (case run s cs of Inl e \<Rightarrow> Inl e
      | Inr s1 \<Rightarrow> (case step s1 c of Inl e \<Rightarrow> Inl e | Inr (a, s2) \<Rightarrow> Inr s2))"
  by (induction cs arbitrary: s) (auto split: sum.splits)

lemma session_snoc:
  "session capacity (cs @ [c]) =
     (case session capacity cs of Inl e \<Rightarrow> Inl e
      | Inr s1 \<Rightarrow> (case step s1 c of Inl e \<Rightarrow> Inl e | Inr (a, s2) \<Rightarrow> Inr s2))"
  by (simp add: session_def run_snoc split: sum.splits)

lemma session_invar:
  assumes "session capacity cs = Inr s"
  shows "invar s \<and> mCapacity s = capacity"
  using assms
proof (induction cs arbitrary: s rule: rev_induct)
  case Nil
  then show ?case
    by (auto simp: session_def LFUCache_ctor_def invar_def links_def bounded_def min_ne_def
        size_lfu_def split: if_splits)
next
  case (snoc c cs)
  from snoc.prems obtain s1 a where
    s1: "session capacity cs = Inr s1" "step s1 c = Inr (a, s)"
    by (auto simp: session_snoc split: sum.splits)
  from snoc.IH[OF s1(1)] have I: "invar s1" and C: "mCapacity s1 = capacity" by simp_all
  from step_invar[OF I, of c] s1(2) have "invar s" by auto
  moreover have "mCapacity s = mCapacity s1"
  proof (cases c)
    case (Get key)
    show ?thesis
    proof (cases "mKeyMetaByKey s1 key")
      case None
      from put_absent[OF I None, of default] s1(2) Get show ?thesis
        by (auto simp: get_absent[OF None] insert_new_def evicted_def Let_def split: if_splits)
    next
      case (Some m)
      from get_resident[OF I Some] s1(2) Get show ?thesis
        by (auto simp: touched_def Let_def)
    qed
  next
    case (Put key v)
    show ?thesis
    proof (cases "mKeyMetaByKey s1 key")
      case None
      from put_absent[OF I None, of v] s1(2) Put show ?thesis
        by (auto simp: insert_new_def evicted_def Let_def split: if_splits)
    next
      case (Some m)
      from put_resident[OF I Some, of v] s1(2) Put show ?thesis
        by (auto simp: touched_def set_val_def Let_def)
    qed
  qed (use s1(2) in auto)
  ultimately show ?case using C by simp
qed

lemma session_total:
  assumes "capacity \<noteq> 0"
  shows "\<exists>s. (session capacity cs :: error + ('k, 'v::default) LFUCache) = Inr s"
proof -
  from ctor_invar[OF assms] obtain s0 :: "('k, 'v) LFUCache" where
    "LFUCache_ctor capacity = Inr s0" "invar s0" by blast
  with run_invar[of s0 cs] show ?thesis by (auto simp: session_def)
qed

section \<open>Counters below the limit\<close>

text \<open>
  The source adds 1 to an \<open>int\<close>; below \<open>INT_MAX\<close> that is the successor of the signed
  value, at \<open>INT_MAX\<close> the result is \<open>-2147483648\<close>.
\<close>

lemma sint_succ:
  fixes w :: cint
  assumes "w \<noteq> INT_MAX"
  shows "sint (w + 1) = sint w + 1"
proof -
  have ne: "sint w \<noteq> 2147483647"
  proof
    assume "sint w = 2147483647"
    then have "sint w = sint (2147483647 :: cint)" by simp
    then have "w = 2147483647" by (rule signed_word_eqI)
    with assms show False by (simp add: INT_MAX_def)
  qed
  have lo: "- (2 ^ 31) \<le> sint w" using sint_ge[of w] by simp
  have hi: "sint w < 2 ^ 31" using sint_lt[of w] by simp
  have "sint (w + 1) = signed_take_bit 31 (sint w + 1)"
    by (simp add: sint_word_ariths)
  also have "\<dots> = sint w + 1"
    using lo hi ne by (intro signed_take_bit_int_eq_self) simp_all
  finally show ?thesis .
qed

lemma sint_wrap: "sint (INT_MAX + 1) = - 2147483648" "sint INT_MAX = 2147483647"
  by (simp_all add: INT_MAX_def)





section \<open>A session evaluated\<close>

text \<open>The two sessions end in the states written out above.\<close>

lemmas lfu_eval = session_def LFUCache_ctor_def put_def get_def touch_def evict_def
  insert_new_def contains_def size_lfu_def empty_lfu_def list_begin_def list_erase_def
  list_back_def list_pop_back_def subscript_def subscript_ins_def value_init_def Let_def
  default_int_def


lemma demo_session: "session 2 demo_calls = Inr demo_state"
  by (simp add: demo_calls_def demo_state_def lfu_eval fun_eq_iff)

lemma demo_full: "\<not> contains demo_state 3 \<and> size_lfu demo_state = unat (mCapacity demo_state)"
  by (simp add: demo_state_def contains_def size_lfu_def)



section \<open>Construction\<close>

text \<open>On its parameter type the constructor fails for the capacity 0 only.\<close>

lemma ctor_error_iff:
  "(LFUCache_ctor capacity :: error + ('k, 'v) LFUCache) = Inl e \<longleftrightarrow> capacity = 0 \<and> e = InvalidArgument"
  by (auto simp: LFUCache_ctor_def)

text \<open>
  C6. Construction fails with the invalid-capacity error exactly for a requested capacity
  \<open>\<le> 0\<close>, and no other operation fails. The source's own notes ask for the error
  on a negative capacity and give \<open>LFUCache<int, int> negCapCache(-1)\<close> as the test.
  The parameter is a \<open>size_t\<close>, so \<open>-1\<close> arrives as \<open>2^64 - 1\<close>, the test
  \<open>capacity <= 0\<close> is false and the cache is built with that capacity: the requested
  capacity \<open>-1\<close> is \<open>\<le> 0\<close> and construction succeeds.
\<close>

theorem ctor_negative_capacity:
  "(- 1 :: int) \<le> 0 \<and>
   (LFUCache_ctor (size_t_of_int (- 1)) :: error + (int, int) LFUCache) =
     Inr \<lparr>mCapacity = 18446744073709551615, mMinFreq = 0, mKeysByFreq = (\<lambda>_. []),
          mKeyMetaByKey = Map.empty, fresh_node = 0\<rparr>"
  by (simp add: LFUCache_ctor_def size_t_of_int_def)

section \<open>The read-only queries\<close>

text \<open>
  C9. \<open>contains\<close>, \<open>size\<close> and \<open>empty\<close> (\<open>const\<close> member functions) return the
  state they were given, unchanged in every field; \<open>contains(key)\<close> answers whether the
  key is in the key index, \<open>size()\<close> the number of entries of the index and \<open>empty()\<close>
  whether there is none.
\<close>

theorem queries_pure:
  "step s (Contains key) = Inr (ABool (key \<in> dom (mKeyMetaByKey s)), s) \<and>
   step s Size = Inr (ASize (card (dom (mKeyMetaByKey s))), s) \<and>
   step s Empty = Inr (ABool (dom (mKeyMetaByKey s) = {}), s)"
  by (simp add: contains_def size_lfu_def empty_lfu_def domIff)

section \<open>The capacity bound\<close>

text \<open>
  C2. For every capacity \<open>c \<ge> 1\<close>, every finite sequence of calls on a cache constructed
  with capacity \<open>c\<close> and every \<open>n\<close>: the first \<open>n\<close> calls of the sequence all return,
  and the size after them is at most \<open>c\<close>.
\<close>

theorem capacity_bound:
  assumes "1 \<le> capacity"
  shows "\<exists>s. (session capacity (take n cs) :: error + ('k, 'v::default) LFUCache) = Inr s \<and>
             step s Size = Inr (ASize (size_lfu s), s) \<and>
             size_lfu s \<le> unat capacity"
proof -
  from assms have ne: "capacity \<noteq> 0" by auto
  from session_total[OF ne] obtain s :: "('k, 'v) LFUCache" where
    s: "session capacity (take n cs) = Inr s" by blast
  from session_invar[OF s] have "size_lfu s \<le> unat capacity"
    by (auto simp: invar_def bounded_def)
  with s show ?thesis by simp
qed

theorem capacity_bound_witness:
  "(1 :: 64 word) \<le> 2 \<and>
   (\<exists>s. session 2 (take 3 (demo_calls @ demo_more)) = Inr s \<and>
        step s Size = Inr (ASize (size_lfu s), s) \<and> size_lfu s \<le> unat (2 :: 64 word))"
  using capacity_bound[of 2 3 "demo_calls @ demo_more"] by simp

section \<open>Round trip\<close>

text \<open>
  C4. In every reachable state, for every key and value, \<open>put(k, v)\<close> returns and the
  \<open>get(k)\<close> that follows returns \<open>v\<close>.
\<close>

theorem put_get_round_trip:
  assumes "session capacity cs = Inr s"
  shows "\<exists>s1 s2. put s key v = Inr s1 \<and> get s1 key = Inr (v, s2)"
proof -
  from session_invar[OF assms] have I: "invar s" by simp
  from put_invar[OF I, of key v] obtain s1 where
    s1: "put s key v = Inr s1" "invar s1" by blast
  have "\<exists>m. mKeyMetaByKey s1 key = Some m \<and> val m = v"
  proof (cases "mKeyMetaByKey s key")
    case None
    from put_absent[OF I None, of v] s1(1) show ?thesis
      by (auto simp: insert_new_def Let_def)
  next
    case (Some m)
    from put_resident[OF I Some, of v] s1(1) show ?thesis
      by (auto simp: set_val_def subscript_def touched_lookup)
  qed
  then obtain m where m: "mKeyMetaByKey s1 key = Some m" "val m = v" by blast
  from get_resident[OF s1(2) m(1)] m(2) s1(1) show ?thesis by auto
qed

theorem put_get_round_trip_witness:
  "session 2 demo_calls = Inr demo_state \<and>
   (\<exists>s1 s2. put demo_state 3 30 = Inr s1 \<and> get s1 3 = Inr (30, s2))"
  using put_get_round_trip[OF demo_session, of 3 30] demo_session by simp

section \<open>What a touch changes\<close>

lemma erase_by_key:
  assumes L: "links s" and K: "mKeyMetaByKey s key = Some m" and I: "iter m = Some n"
  shows "filter (\<lambda>p. fst p \<noteq> n) (mKeysByFreq s (freq m)) =
         filter (\<lambda>p. snd p \<noteq> key) (mKeysByFreq s (freq m))"
proof (rule filter_cong[OF refl])
  fix p assume p: "p \<in> set (mKeysByFreq s (freq m))"
  from linksD1[OF L K] I have nk: "(n, key) \<in> set (mKeysByFreq s (freq m))" by auto
  have "fst p = n \<longleftrightarrow> snd p = key"
  proof
    assume "fst p = n"
    then have "(n, snd p) \<in> set (mKeysByFreq s (freq m))" using p by auto
    from distinct_fst_unique[OF linksD3[OF L] this nk] show "snd p = key" .
  next
    assume "snd p = key"
    then have "(fst p, key) \<in> set (mKeysByFreq s (freq m))" using p by auto
    from linksD2[OF L this] K I show "fst p = n" by auto
  qed
  then show "(fst p \<noteq> n) = (snd p \<noteq> key)" by simp
qed

lemma touched_buckets:
  assumes L: "links s" and K: "mKeyMetaByKey s key = Some m" and I: "iter m = Some n"
  shows "mKeysByFreq (touched s key m n) (freq m) =
           filter (\<lambda>p. snd p \<noteq> key) (mKeysByFreq s (freq m))"
    and "mKeysByFreq (touched s key m n) (freq m + 1) =
           (fresh_node s, key) # mKeysByFreq s (freq m + 1)"
    and "f \<noteq> freq m \<Longrightarrow> f \<noteq> freq m + 1 \<Longrightarrow>
           mKeysByFreq (touched s key m n) f = mKeysByFreq s f"
  using erase_by_key[OF L K I] by (simp_all add: touched_def Let_def)

lemma touched_index:
  "k \<noteq> key \<Longrightarrow> mKeyMetaByKey (touched s key m n) k = mKeyMetaByKey s k"
  by (simp add: touched_def Let_def)

lemma touched_fields:
  "mCapacity (touched s key m n) = mCapacity s"
  "mMinFreq (touched s key m n) =
     (if mKeysByFreq (touched s key m n) (mMinFreq s) = [] then mMinFreq s + 1 else mMinFreq s)"
  by (simp_all add: touched_def Let_def)

lemma touched_min_step:
  assumes I: "invar s" and K: "mKeyMetaByKey s key = Some m" and It: "iter m = Some n"
  shows "mMinFreq (touched s key m n) =
     (if mKeysByFreq (touched s key m n) (freq m) = [] \<and> freq m = mMinFreq s
      then mMinFreq s + 1 else mMinFreq s)"
proof -
  from I have L: "links s" and M: "min_ne s" by (simp_all add: invar_def)
  let ?t = "touched s key m n"
  have ne: "dom (mKeyMetaByKey s) \<noteq> {}" using K by auto
  with M have m1: "mKeysByFreq s (mMinFreq s) \<noteq> []" unfolding min_ne_def by blast
  have "mKeysByFreq ?t (mMinFreq s) = [] \<longleftrightarrow>
        mKeysByFreq ?t (freq m) = [] \<and> freq m = mMinFreq s"
  proof
    assume e: "mKeysByFreq ?t (mMinFreq s) = []"
    have "mMinFreq s \<noteq> freq m + 1"
      using e touched_buckets(2)[OF L K It] by auto
    moreover have "mMinFreq s = freq m"
    proof (rule ccontr)
      assume "mMinFreq s \<noteq> freq m"
      with calculation touched_buckets(3)[OF L K It, of "mMinFreq s"] e m1
      show False by simp
    qed
    ultimately show "mKeysByFreq ?t (freq m) = [] \<and> freq m = mMinFreq s"
      using e by simp
  next
    assume "mKeysByFreq ?t (freq m) = [] \<and> freq m = mMinFreq s"
    then show "mKeysByFreq ?t (mMinFreq s) = []" by metis
  qed
  then show ?thesis using touched_fields(2)[of s key m n] by simp
qed

section \<open>A miss\<close>

text \<open>
  C5. In every reachable state a \<open>get\<close> of a key that is not resident returns the
  default value of the value type and ends in the state in which \<open>put(k, V())\<close> ends:
  the key is resident afterwards, and if the cache was full one resident key has been
  removed, otherwise none.
\<close>

theorem get_miss_fills_default:
  assumes "session capacity cs = Inr s" and "\<not> contains s key"
  shows "\<exists>s'. get s key = Inr (default, s') \<and> put s key default = Inr s' \<and>
           contains s' key \<and>
           mKeyMetaByKey s' key = Some \<lparr>iter = list_begin (mKeysByFreq s' 1), freq = 1, val = default\<rparr> \<and>
           (if size_lfu s = unat (mCapacity s)
            then \<exists>x. contains s x \<and>
                   dom (mKeyMetaByKey s') = insert key (dom (mKeyMetaByKey s) - {x})
            else dom (mKeyMetaByKey s') = insert key (dom (mKeyMetaByKey s)))"
proof -
  from session_invar[OF assms(1)] have I: "invar s" by simp
  then have L: "links s" by (simp add: invar_def)
  from assms(2) have K: "mKeyMetaByKey s key = None" by (simp add: contains_def)
  define s1 where "s1 = (if size_lfu s = unat (mCapacity s) then evicted s else s)"
  from put_absent[OF I K, of default] have
    p: "put s key default = Inr (insert_new s1 key default)" by (simp add: s1_def)
  then have g: "get s key = Inr (default, insert_new s1 key default)"
    by (simp add: get_absent[OF K])
  have c: "contains (insert_new s1 key default) key"
    by (simp add: contains_def insert_new_def Let_def)
  have e: "mKeyMetaByKey (insert_new s1 key default) key =
             Some \<lparr>iter = list_begin (mKeysByFreq (insert_new s1 key default) 1), freq = 1, val = default\<rparr>"
    by (simp add: insert_new_def Let_def)
  have d: "if size_lfu s = unat (mCapacity s)
            then \<exists>x. contains s x \<and>
                   dom (mKeyMetaByKey (insert_new s1 key default)) = insert key (dom (mKeyMetaByKey s) - {x})
            else dom (mKeyMetaByKey (insert_new s1 key default)) = insert key (dom (mKeyMetaByKey s))"
  proof (cases "size_lfu s = unat (mCapacity s)")
    case True
    from victim_resident[OF L full_min_bucket[OF I True]]
    have "contains s (victim s)" by (auto simp: contains_def)
    moreover have "dom (mKeyMetaByKey (insert_new s1 key default)) =
                   insert key (dom (mKeyMetaByKey s) - {victim s})"
      using True by (simp add: s1_def insert_new_dom evicted_dom)
    ultimately show ?thesis using True by auto
  next
    case False
    then show ?thesis by (simp add: s1_def insert_new_dom)
  qed
  from g p c e d show ?thesis by blast
qed

theorem get_miss_fills_default_witness:
  "session 2 demo_calls = Inr demo_state \<and> \<not> contains demo_state 3 \<and>
   size_lfu demo_state = unat (mCapacity demo_state) \<and>
   (\<exists>s'. get demo_state 3 = Inr (0, s') \<and> put demo_state 3 0 = Inr s' \<and>
         contains s' 3 \<and> dom (mKeyMetaByKey s') = {1, 3})"
proof -
  from get_miss_fills_default[OF demo_session, of 3] demo_full obtain s' where
    "get demo_state 3 = Inr (default, s')" "put demo_state 3 default = Inr s'" by auto
  then have "\<exists>s'. get demo_state 3 = Inr (0, s') \<and> put demo_state 3 0 = Inr s' \<and>
         contains s' 3 \<and> dom (mKeyMetaByKey s') = {1, 3}"
    by (auto simp: demo_state_def lfu_eval split: if_splits)
  with demo_session demo_full show ?thesis by blast
qed

section \<open>Sessions without overflow\<close>




section \<open>A key touched until its counter is at the limit\<close>



lemma spin_step:
  "step (spin_state c n) (Get 1) = Inr (AVal 10, spin_state c (Suc n))"
  by (simp add: spin_state_def get_def contains_def touch_def subscript_def subscript_ins_def
      list_erase_def list_begin_def Let_def fun_eq_iff)

lemma spin_session:
  assumes "c \<noteq> 0"
  shows "session c (spin_calls n) = Inr (spin_state c n)"
proof (induction n)
  case 0
  have "unat c \<noteq> 0" using assms by (simp add: unat_eq_0)
  then show ?case
    using assms
    by (simp add: spin_calls_def spin_state_def lfu_eval fun_eq_iff)
next
  case (Suc n)
  have "spin_calls (Suc n) = spin_calls n @ [Get 1]"
    by (simp add: spin_calls_def replicate_append_same)
  then show ?case
    using Suc spin_step[of c n] by (simp add: session_snoc del: step.simps)
qed

lemma limit_session: "session 1 (spin_calls 2147483646) = Inr limit_state"
proof -
  have "spin_state 1 2147483646 = limit_state"
    by (simp add: spin_state_def limit_state_def)
  with spin_session[of 1 2147483646] show ?thesis by simp
qed

lemma limit_get: "get limit_state 1 = Inr (10, limit_after)"
  by (simp add: limit_state_def limit_after_def get_def contains_def touch_def subscript_def
      subscript_ins_def list_erase_def list_begin_def Let_def fun_eq_iff)

lemma limit_put: "put limit_state 1 11 =
    Inr (limit_after\<lparr>mKeyMetaByKey :=
          [1 \<mapsto> \<lparr>iter = Some 2147483647, freq = 2147483648, val = 11\<rparr>]\<rparr>)"
  by (simp add: limit_state_def limit_after_def put_def contains_def touch_def subscript_def
      subscript_ins_def list_erase_def list_begin_def Let_def fun_eq_iff)



section \<open>Frequencies over the life of an entry\<close>

lemma step_freq:
  assumes I: "invar s" and K: "mKeyMetaByKey s k = Some m"
    and S: "step s c = Inr (a, s1)" and K1: "mKeyMetaByKey s1 k = Some m1"
  shows "freq m1 = freq m + (if touches c k then 1 else 0)"
proof -
  have hit: "freq m1 = freq m + (if key = k then 1 else 0)"
    if t: "mKeyMetaByKey s key = Some mk"
      and e: "mKeyMetaByKey s1 k = mKeyMetaByKey (touched s key mk n) k \<or>
              mKeyMetaByKey s1 k = mKeyMetaByKey (set_val (touched s key mk n) key v) k"
    for key mk n v
  proof (cases "key = k")
    case True
    then have "mk = m" using t K by simp
    then show ?thesis
      using e K1 True by (auto simp: touched_lookup set_val_def subscript_def)
  next
    case False
    then show ?thesis
      using e K1 K by (auto simp: touched_index set_val_def)
  qed
  have miss: "freq m1 = freq m + (if key = k then 1 else 0)"
    if t: "mKeyMetaByKey s key = None"
      and e: "s1 = insert_new (if size_lfu s = unat (mCapacity s) then evicted s else s) key v"
    for key v
  proof -
    have "key \<noteq> k" using t K by auto
    then have "mKeyMetaByKey s1 k = mKeyMetaByKey s k"
      using e K1 by (auto simp: insert_new_def evicted_def Let_def split: if_splits)
    then show ?thesis using K K1 \<open>key \<noteq> k\<close> by simp
  qed
  show ?thesis
  proof (cases c)
    case (Get key)
    show ?thesis
    proof (cases "mKeyMetaByKey s key")
      case None
      from put_absent[OF I None, of default] S Get
      have "s1 = insert_new (if size_lfu s = unat (mCapacity s) then evicted s else s) key default"
        by (auto simp: get_absent[OF None])
      from miss[OF None this] show ?thesis using Get by simp
    next
      case (Some mk)
      from get_resident[OF I Some] S Get obtain n where "s1 = touched s key mk n" by auto
      with hit[OF Some, of n] show ?thesis using Get by simp
    qed
  next
    case (Put key v)
    show ?thesis
    proof (cases "mKeyMetaByKey s key")
      case None
      from put_absent[OF I None, of v] S Put
      have "s1 = insert_new (if size_lfu s = unat (mCapacity s) then evicted s else s) key v"
        by auto
      from miss[OF None this] show ?thesis using Put by simp
    next
      case (Some mk)
      from put_resident[OF I Some, of v] S Put obtain n where
        "s1 = set_val (touched s key mk n) key v" by auto
      with hit[OF Some, of n v] show ?thesis using Put by simp
    qed
  qed (use S K K1 in auto)
qed

lemma sint_le_limit:
  fixes w :: cint
  shows "sint w \<le> 2147483647"
  using sint_lt[of w] by simp

lemma run_freq:
  assumes "invar s" and "mKeyMetaByKey s k = Some m" and "resident_run s ds k"
    and "sint (freq m) + int (length (filter (\<lambda>c. touches c k) ds)) \<le> 2147483647"
  shows "\<exists>s' m'. run s ds = Inr s' \<and> mKeyMetaByKey s' k = Some m' \<and>
           sint (freq m') = sint (freq m) + int (length (filter (\<lambda>c. touches c k) ds))"
  using assms
proof (induction ds arbitrary: s m)
  case Nil
  then show ?case by simp
next
  case (Cons c ds)
  from step_invar[OF Cons.prems(1), of c] obtain a s1 where
    s1: "step s c = Inr (a, s1)" "invar s1" by blast
  from Cons.prems(3) s1(1) have r: "resident_run s1 ds k" by simp
  then have "contains s1 k" by (cases ds) simp_all
  then obtain m1 where m1: "mKeyMetaByKey s1 k = Some m1"
    by (auto simp: contains_def)
  from step_freq[OF Cons.prems(1,2) s1(1) m1]
  have w: "freq m1 = freq m + (if touches c k then 1 else 0)" .
  have f: "sint (freq m1) = sint (freq m) + (if touches c k then 1 else 0)"
  proof (cases "touches c k")
    case True
    with Cons.prems(4) have "sint (freq m) < 2147483647" by simp
    then have "freq m \<noteq> INT_MAX" by (auto simp: INT_MAX_def)
    from sint_succ[OF this] w True show ?thesis by simp
  next
    case False
    with w show ?thesis by simp
  qed
  with Cons.prems(4) have
    "sint (freq m1) + int (length (filter (\<lambda>c. touches c k) ds)) \<le> 2147483647"
    by (simp split: if_splits)
  from Cons.IH[OF s1(2) m1 r this] obtain s' m' where
    "run s1 ds = Inr s'" "mKeyMetaByKey s' k = Some m'"
    "sint (freq m') = sint (freq m1) + int (length (filter (\<lambda>c. touches c k) ds))"
    by blast
  then show ?case using s1(1) f by simp
qed

text \<open>
  C7. The frequency of a resident key is non-decreasing over its lifetime and grows by
  exactly 1 with each \<open>get\<close> and each \<open>put\<close> of the key; no call changes the frequency of
  another resident key. As stated this fails where the counter is at \<open>INT_MAX\<close> (see
  the state evaluated below). What holds: a \<open>get\<close> or \<open>put\<close> of a resident key whose
  frequency is below \<open>INT_MAX = 2147483647\<close> adds exactly 1 to it; over any sequence of
  calls during which the key stays resident and the \<open>get\<close> and \<open>put\<close> calls on it do not
  take its frequency above \<open>INT_MAX\<close>, the frequency grows by the number of those calls,
  so it does not decrease; a call that is not a \<open>get\<close> or \<open>put\<close> of the key leaves the
  key's frequency as it is.
\<close>

theorem frequency_lifetime:
  assumes "session capacity cs = Inr s" and "mKeyMetaByKey s k = Some m"
  shows "(freq m \<noteq> INT_MAX \<longrightarrow>
            (\<exists>v s1 m1. get s k = Inr (v, s1) \<and> mKeyMetaByKey s1 k = Some m1 \<and>
                       sint (freq m1) = sint (freq m) + 1)) \<and>
         (freq m \<noteq> INT_MAX \<longrightarrow>
            (\<forall>v. \<exists>s1 m1. put s k v = Inr s1 \<and> mKeyMetaByKey s1 k = Some m1 \<and>
                       sint (freq m1) = sint (freq m) + 1)) \<and>
         (\<forall>ds. resident_run s ds k \<and>
               sint (freq m) + int (length (filter (\<lambda>c. touches c k) ds)) \<le> 2147483647 \<longrightarrow>
            (\<exists>s' m'. run s ds = Inr s' \<and> mKeyMetaByKey s' k = Some m' \<and>
               sint (freq m) \<le> sint (freq m') \<and>
               sint (freq m') = sint (freq m) + int (length (filter (\<lambda>c. touches c k) ds)))) \<and>
         (\<forall>c a s1 m1. \<not> touches c k \<and> step s c = Inr (a, s1) \<and> mKeyMetaByKey s1 k = Some m1 \<longrightarrow>
            freq m1 = freq m)"
proof -
  from session_invar[OF assms(1)] have I: "invar s" by simp
  note K = assms(2)
  have a: "\<exists>v s1 m1. get s k = Inr (v, s1) \<and> mKeyMetaByKey s1 k = Some m1 \<and>
             sint (freq m1) = sint (freq m) + 1" if "freq m \<noteq> INT_MAX"
    using get_resident[OF I K] sint_succ[OF that] by (auto simp: touched_lookup)
  have b: "\<exists>s1 m1. put s k v = Inr s1 \<and> mKeyMetaByKey s1 k = Some m1 \<and>
             sint (freq m1) = sint (freq m) + 1" if "freq m \<noteq> INT_MAX" for v
    using put_resident[OF I K, of v] sint_succ[OF that]
    by (auto simp: touched_lookup set_val_def subscript_def)
  have c: "\<exists>s' m'. run s ds = Inr s' \<and> mKeyMetaByKey s' k = Some m' \<and>
               sint (freq m) \<le> sint (freq m') \<and>
               sint (freq m') = sint (freq m) + int (length (filter (\<lambda>c. touches c k) ds))"
    if "resident_run s ds k \<and>
        sint (freq m) + int (length (filter (\<lambda>c. touches c k) ds)) \<le> 2147483647" for ds
    using run_freq[OF I K, of ds] that by auto
  have d: "freq m1 = freq m"
    if "\<not> touches c k \<and> step s c = Inr (a, s1) \<and> mKeyMetaByKey s1 k = Some m1" for c a s1 m1
    using step_freq[OF I K, of c a s1 m1] that by simp
  from a b c d show ?thesis by blast
qed

theorem frequency_lifetime_witness:
  "session 2 demo_calls = Inr demo_state \<and>
   mKeyMetaByKey demo_state 1 = Some \<lparr>iter = Some 2, freq = 2, val = 10\<rparr> \<and>
   (2 :: cint) \<noteq> INT_MAX \<and>
   resident_run demo_state demo_more 1 \<and>
   sint (2 :: cint) + int (length (filter (\<lambda>c. touches c (1::int)) demo_more)) \<le> 2147483647 \<and>
   (\<exists>s' m'. run demo_state demo_more = Inr s' \<and> mKeyMetaByKey s' 1 = Some m' \<and>
      sint (freq m') = 4)"
proof -
  have k1: "mKeyMetaByKey demo_state 1 = Some \<lparr>iter = Some 2, freq = 2, val = 10\<rparr>"
    by (simp add: demo_state_def)
  have l: "(2 :: cint) \<noteq> INT_MAX" by (simp add: INT_MAX_def)
  have r: "resident_run demo_state demo_more 1"
    by (simp add: demo_more_def demo_state_def lfu_eval)
  have n: "length (filter (\<lambda>c. touches c (1::int)) demo_more) = 2"
    by (simp add: demo_more_def)
  have b: "sint (2 :: cint) + int (length (filter (\<lambda>c. touches c (1::int)) demo_more)) \<le> 2147483647"
    by (simp add: n)
  from frequency_lifetime[OF demo_session k1] r n
  have "\<exists>s' m'. run demo_state demo_more = Inr s' \<and> mKeyMetaByKey s' 1 = Some m' \<and>
      sint (freq m') = 4"
    by fastforce
  with demo_session k1 l r b show ?thesis by blast
qed

text \<open>
  The frequency of key 1 after \<open>put(1, 10)\<close> and 2147483646 calls of \<open>get(1)\<close> is
  \<open>INT_MAX\<close>; the next \<open>get(1)\<close> leaves it at \<open>-2147483648\<close>.
\<close>

theorem frequency_wraps:
  "session 1 (Put 1 10 # replicate 2147483646 (Get 1)) = Inr limit_state \<and>
   mKeyMetaByKey limit_state 1 = Some \<lparr>iter = Some 2147483646, freq = 2147483647, val = 10\<rparr> \<and>
   get limit_state 1 = Inr (10, limit_after) \<and>
   mKeyMetaByKey limit_after 1 = Some \<lparr>iter = Some 2147483647, freq = 2147483648, val = 10\<rparr> \<and>
   sint (2147483647 :: cint) = 2147483647 \<and> sint (2147483648 :: cint) = - 2147483648"
  using limit_session limit_get
  by (simp add: spin_calls_def limit_state_def limit_after_def)

section \<open>A hit\<close>

text \<open>
  C10. In every reachable state a \<open>get\<close> of a resident key changes neither the set of
  resident keys, nor the size, nor the value stored for any key; the only changes are the
  key's frequency increment, its move to the front of its new bucket and the possible
  increment of \<open>mMinFreq\<close>. As stated this fails where the key's frequency is \<open>INT_MAX\<close>
  (see the state evaluated below). What holds: in every reachable state a \<open>get\<close> of a
  resident key returns the stored value and changes neither the resident keys, nor the
  size, nor the capacity, nor any stored value, nor the entry of any other key; the key
  leaves its old bucket, whose other nodes keep their order, and becomes the front of the
  bucket of the source's \<open>oldFreq + 1\<close>, which is its new frequency; every other bucket
  stays as it is; and when the key's frequency is below \<open>INT_MAX = 2147483647\<close> the new
  frequency is the old one plus 1 and \<open>mMinFreq\<close> stays or grows by exactly 1.
\<close>

theorem get_hit_frame:
  assumes "session capacity cs = Inr s" and "mKeyMetaByKey s key = Some m"
  shows "\<exists>s' n. get s key = Inr (val m, s') \<and>
           dom (mKeyMetaByKey s') = dom (mKeyMetaByKey s) \<and>
           size_lfu s' = size_lfu s \<and>
           mCapacity s' = mCapacity s \<and>
           (\<forall>k. map_option val (mKeyMetaByKey s' k) = map_option val (mKeyMetaByKey s k)) \<and>
           (\<forall>k. k \<noteq> key \<longrightarrow> mKeyMetaByKey s' k = mKeyMetaByKey s k) \<and>
           mKeyMetaByKey s' key = Some \<lparr>iter = Some n, freq = freq m + 1, val = val m\<rparr> \<and>
           mKeysByFreq s' (freq m) = filter (\<lambda>p. snd p \<noteq> key) (mKeysByFreq s (freq m)) \<and>
           mKeysByFreq s' (freq m + 1) = (n, key) # mKeysByFreq s (freq m + 1) \<and>
           (\<forall>f. f \<noteq> freq m \<and> f \<noteq> freq m + 1 \<longrightarrow> mKeysByFreq s' f = mKeysByFreq s f) \<and>
           (mMinFreq s' = mMinFreq s \<or> mMinFreq s' = mMinFreq s + 1) \<and>
           (freq m \<noteq> INT_MAX \<longrightarrow>
              sint (freq m + 1) = sint (freq m) + 1 \<and>
              (sint (mMinFreq s') = sint (mMinFreq s) \<or>
               sint (mMinFreq s') = sint (mMinFreq s) + 1))"
proof -
  from session_invar[OF assms(1)] have I: "invar s" by simp
  then have L: "links s" by (simp add: invar_def)
  from get_resident[OF I assms(2)] obtain n where
    n: "iter m = Some n" "get s key = Inr (val m, touched s key m n)" by blast
  let ?t = "touched s key m n"
  note K = assms(2)
  have "dom (mKeyMetaByKey ?t) = dom (mKeyMetaByKey s)"
    by (rule touched_dom[OF K])
  moreover from this have "size_lfu ?t = size_lfu s"
    by (simp add: size_lfu_def)
  moreover have "mCapacity ?t = mCapacity s"
    by (rule touched_fields(1))
  moreover have "map_option val (mKeyMetaByKey ?t k) = map_option val (mKeyMetaByKey s k)" for k
    using K by (cases "k = key") (simp_all add: touched_lookup touched_index)
  moreover have "k \<noteq> key \<longrightarrow> mKeyMetaByKey ?t k = mKeyMetaByKey s k" for k
    by (simp add: touched_index)
  moreover have "mKeyMetaByKey ?t key = Some \<lparr>iter = Some (fresh_node s), freq = freq m + 1, val = val m\<rparr>"
    by (simp add: touched_lookup)
  moreover have "f \<noteq> freq m \<and> f \<noteq> freq m + 1 \<longrightarrow> mKeysByFreq ?t f = mKeysByFreq s f" for f
    using touched_buckets(3)[OF L K n(1)] by blast
  moreover have "mMinFreq ?t = mMinFreq s \<or> mMinFreq ?t = mMinFreq s + 1"
    using touched_fields(2)[of s key m n] by presburger
  moreover have "freq m \<noteq> INT_MAX \<longrightarrow>
              sint (freq m + 1) = sint (freq m) + 1 \<and>
              (sint (mMinFreq ?t) = sint (mMinFreq s) \<or>
               sint (mMinFreq ?t) = sint (mMinFreq s) + 1)"
  proof
    assume lim: "freq m \<noteq> INT_MAX"
    have "sint (mMinFreq ?t) = sint (mMinFreq s) \<or> sint (mMinFreq ?t) = sint (mMinFreq s) + 1"
    proof (cases "mKeysByFreq ?t (freq m) = [] \<and> freq m = mMinFreq s")
      case True
      with touched_min_step[OF I K n(1)] have "mMinFreq ?t = mMinFreq s + 1"
        by metis
      moreover from True have "mMinFreq s = freq m" by metis
      ultimately show ?thesis using sint_succ[OF lim] by simp
    next
      case False
      with touched_min_step[OF I K n(1)] have "mMinFreq ?t = mMinFreq s"
        by metis
      then show ?thesis by simp
    qed
    with sint_succ[OF lim]
    show "sint (freq m + 1) = sint (freq m) + 1 \<and>
              (sint (mMinFreq ?t) = sint (mMinFreq s) \<or>
               sint (mMinFreq ?t) = sint (mMinFreq s) + 1)" by blast
  qed
  ultimately show ?thesis
    using n(2) touched_buckets(1,2)[OF L K n(1)] by blast
qed

theorem get_hit_frame_witness:
  "session 2 demo_calls = Inr demo_state \<and>
   mKeyMetaByKey demo_state 2 = Some \<lparr>iter = Some 1, freq = 1, val = 20\<rparr> \<and>
   (1 :: cint) \<noteq> INT_MAX \<and>
   (\<exists>s'. get demo_state 2 = Inr (20, s') \<and> size_lfu s' = 2 \<and>
         mKeyMetaByKey s' 1 = mKeyMetaByKey demo_state 1 \<and>
         mKeyMetaByKey s' 2 = Some \<lparr>iter = Some 3, freq = 2, val = 20\<rparr> \<and>
         mKeysByFreq s' 1 = [] \<and> mKeysByFreq s' 2 = [(3, 2), (2, 1)] \<and> mMinFreq s' = 2)"
proof -
  have k2: "mKeyMetaByKey demo_state 2 = Some \<lparr>iter = Some 1, freq = 1, val = 20\<rparr>"
    by (simp add: demo_state_def)
  have l: "(1 :: cint) \<noteq> INT_MAX" by (simp add: INT_MAX_def)
  from get_hit_frame[OF demo_session k2] obtain s' n where
    "get demo_state 2 = Inr (20, s')" by auto
  then have "\<exists>s'. get demo_state 2 = Inr (20, s') \<and> size_lfu s' = 2 \<and>
         mKeyMetaByKey s' 1 = mKeyMetaByKey demo_state 1 \<and>
         mKeyMetaByKey s' 2 = Some \<lparr>iter = Some 3, freq = 2, val = 20\<rparr> \<and>
         mKeysByFreq s' 1 = [] \<and> mKeysByFreq s' 2 = [(3, 2), (2, 1)] \<and> mMinFreq s' = 2"
    by (auto simp: demo_state_def lfu_eval split: if_splits)
  with demo_session k2 l show ?thesis by blast
qed

text \<open>
  At the frequency \<open>INT_MAX\<close> a hit takes the key's frequency and \<open>mMinFreq\<close> from
  2147483647 to \<open>-2147483648\<close>.
\<close>

theorem get_hit_wraps:
  "session 1 (Put 1 10 # replicate 2147483646 (Get 1)) = Inr limit_state \<and>
   mKeyMetaByKey limit_state 1 = Some \<lparr>iter = Some 2147483646, freq = 2147483647, val = 10\<rparr> \<and>
   mMinFreq limit_state = 2147483647 \<and>
   get limit_state 1 = Inr (10, limit_after) \<and>
   mKeyMetaByKey limit_after 1 = Some \<lparr>iter = Some 2147483647, freq = 2147483648, val = 10\<rparr> \<and>
   mMinFreq limit_after = 2147483648 \<and>
   sint (2147483647 :: cint) = 2147483647 \<and> sint (2147483648 :: cint) = - 2147483648"
  using limit_session limit_get
  by (simp add: spin_calls_def limit_state_def limit_after_def)

section \<open>An update\<close>

text \<open>
  C8. In every reachable state, full or not, \<open>put(k, v)\<close> on a resident key ends in the
  state a \<open>get(k)\<close> hit would have ended in, but for the value of \<open>k\<close>, which is \<open>v\<close>: it
  has applied the same touch (the frequency of \<open>k\<close> is the source's \<open>oldFreq + 1\<close> and \<open>k\<close>
  is the front of the bucket of that frequency), the resident keys and the size are as
  before and every other entry is as before.
\<close>

theorem put_update:
  assumes "session capacity cs = Inr s" and "mKeyMetaByKey s key = Some m"
  shows "\<exists>t s' n. get s key = Inr (val m, t) \<and> put s key v = Inr s' \<and>
           mKeyMetaByKey t key = Some \<lparr>iter = Some n, freq = freq m + 1, val = val m\<rparr> \<and>
           s' = t\<lparr>mKeyMetaByKey :=
                    (mKeyMetaByKey t)(key \<mapsto> \<lparr>iter = Some n, freq = freq m + 1, val = v\<rparr>)\<rparr> \<and>
           mKeysByFreq s' (freq m + 1) = (n, key) # mKeysByFreq s (freq m + 1) \<and>
           dom (mKeyMetaByKey s') = dom (mKeyMetaByKey s) \<and>
           size_lfu s' = size_lfu s \<and>
           (\<forall>k. k \<noteq> key \<longrightarrow> mKeyMetaByKey s' k = mKeyMetaByKey s k)"
proof -
  from session_invar[OF assms(1)] have I: "invar s" by simp
  then have L: "links s" by (simp add: invar_def)
  note K = assms(2)
  from get_resident[OF I K] obtain n where
    n: "iter m = Some n" "get s key = Inr (val m, touched s key m n)" by blast
  from put_resident[OF I K, of v] n(1) have
    p: "put s key v = Inr (set_val (touched s key m n) key v)" by auto
  let ?t = "touched s key m n"
  let ?s' = "set_val ?t key v"
  have t: "mKeyMetaByKey ?t key = Some \<lparr>iter = Some (fresh_node s), freq = freq m + 1, val = val m\<rparr>"
    by (simp add: touched_lookup)
  have e: "?s' = ?t\<lparr>mKeyMetaByKey :=
             (mKeyMetaByKey ?t)(key \<mapsto> \<lparr>iter = Some (fresh_node s), freq = freq m + 1, val = v\<rparr>)\<rparr>"
    by (simp add: set_val_def subscript_def t)
  have b: "mKeysByFreq ?s' (freq m + 1) = (fresh_node s, key) # mKeysByFreq s (freq m + 1)"
    using touched_buckets(2)[OF L K n(1)] by (simp add: set_val_def)
  have d: "dom (mKeyMetaByKey ?s') = dom (mKeyMetaByKey s)"
    using set_val_dom[OF t, of v] touched_dom[OF K, of n] by simp
  then have sz: "size_lfu ?s' = size_lfu s" by (simp add: size_lfu_def)
  have o: "\<forall>k. k \<noteq> key \<longrightarrow> mKeyMetaByKey ?s' k = mKeyMetaByKey s k"
    by (simp add: set_val_def touched_index)
  from n(2) p t e b d sz o show ?thesis by blast
qed

theorem put_update_witness:
  "session 2 demo_calls = Inr demo_state \<and>
   size_lfu demo_state = unat (mCapacity demo_state) \<and>
   mKeyMetaByKey demo_state 2 = Some \<lparr>iter = Some 1, freq = 1, val = 20\<rparr> \<and>
   (\<exists>s'. put demo_state 2 21 = Inr s' \<and> size_lfu s' = 2 \<and>
         dom (mKeyMetaByKey s') = {1, 2} \<and>
         mKeyMetaByKey s' 2 = Some \<lparr>iter = Some 3, freq = 2, val = 21\<rparr> \<and>
         mKeysByFreq s' 2 = [(3, 2), (2, 1)])"
proof -
  have k2: "mKeyMetaByKey demo_state 2 = Some \<lparr>iter = Some 1, freq = 1, val = 20\<rparr>"
    by (simp add: demo_state_def)
  have full: "size_lfu demo_state = unat (mCapacity demo_state)"
    using demo_full by simp
  from put_update[OF demo_session k2, of 21] obtain s' where
    "put demo_state 2 21 = Inr s'" by auto
  then have "\<exists>s'. put demo_state 2 21 = Inr s' \<and> size_lfu s' = 2 \<and>
         dom (mKeyMetaByKey s') = {1, 2} \<and>
         mKeyMetaByKey s' 2 = Some \<lparr>iter = Some 3, freq = 2, val = 21\<rparr> \<and>
         mKeysByFreq s' 2 = [(3, 2), (2, 1)]"
    by (auto simp: demo_state_def lfu_eval split: if_splits)
  with demo_session k2 full show ?thesis by blast
qed

section \<open>Buckets are ordered by recency\<close>














section \<open>The minimum frequency\<close>




section \<open>Eviction\<close>




section \<open>Short sessions do not overflow\<close>

text \<open>
  After \<open>n\<close> calls no frequency exceeds \<open>n\<close>, so in a session of at most
  \<open>2^31 - 1 = 2147483647\<close> calls no \<open>get\<close> or \<open>put\<close> meets a key of frequency \<open>INT_MAX\<close>.
\<close>

lemma step_new_entry:
  assumes I: "invar s" and K: "mKeyMetaByKey s k = None"
    and S: "step s c = Inr (a, s1)" and K1: "mKeyMetaByKey s1 k = Some m1"
  shows "freq m1 = 1"
proof -
  have other: "mKeyMetaByKey (touched s key m n) k = None \<and>
               mKeyMetaByKey (set_val (touched s key m n) key v) k = None"
    if "mKeyMetaByKey s key = Some m" for key m n v
  proof -
    have "k \<noteq> key" using that K by auto
    then show ?thesis using K by (simp add: touched_index set_val_def)
  qed
  have miss: "freq m1 = 1"
    if "s1 = insert_new (if size_lfu s = unat (mCapacity s) then evicted s else s) key v"
    for key v
    using that K K1 by (auto simp: insert_new_def evicted_def Let_def split: if_splits)
  show ?thesis
  proof (cases c)
    case (Get key)
    show ?thesis
    proof (cases "mKeyMetaByKey s key")
      case None
      from put_absent[OF I None, of default] S Get
      have "s1 = insert_new (if size_lfu s = unat (mCapacity s) then evicted s else s) key default"
        by (auto simp: get_absent[OF None])
      from miss[OF this] show ?thesis .
    next
      case (Some m)
      from get_resident[OF I Some] S Get other[OF Some] K1 show ?thesis by auto
    qed
  next
    case (Put key v)
    show ?thesis
    proof (cases "mKeyMetaByKey s key")
      case None
      from put_absent[OF I None, of v] S Put
      have "s1 = insert_new (if size_lfu s = unat (mCapacity s) then evicted s else s) key v"
        by auto
      from miss[OF this] show ?thesis .
    next
      case (Some m)
      from put_resident[OF I Some, of v] S Put other[OF Some] K1 show ?thesis by auto
    qed
  qed (use S K K1 in auto)
qed

lemma step_bound:
  assumes I: "invar s"
    and B: "\<And>k m. mKeyMetaByKey s k = Some m \<Longrightarrow> sint (freq m) \<le> b"
    and b: "0 \<le> b" "b < 2147483647"
    and S: "step s c = Inr (a, s1)" and K1: "mKeyMetaByKey s1 k = Some m1"
  shows "sint (freq m1) \<le> b + 1"
proof (cases "mKeyMetaByKey s k")
  case None
  from step_new_entry[OF I None S K1] b(1) show ?thesis by simp
next
  case (Some m)
  from B[OF Some] b(2) have "sint (freq m) < 2147483647" by simp
  then have "freq m \<noteq> INT_MAX" by (auto simp: INT_MAX_def)
  from sint_succ[OF this] step_freq[OF I Some S K1] B[OF Some]
  show ?thesis by (simp split: if_splits)
qed

lemma bounded_overflow_free:
  assumes "invar s"
    and "\<And>k m. mKeyMetaByKey s k = Some m \<Longrightarrow> sint (freq m) \<le> b"
    and "0 \<le> b" and "b + int (length cs) \<le> 2147483647"
  shows "overflow_free s cs"
  using assms
proof (induction cs arbitrary: s b)
  case Nil
  then show ?case by simp
next
  case (Cons c cs)
  from Cons.prems(4) have b: "b < 2147483647" by simp
  have lim: "freq m \<noteq> INT_MAX" if "mKeyMetaByKey s key = Some m" for key m
  proof -
    from Cons.prems(2)[OF that] b have "sint (freq m) < 2147483647" by simp
    then show ?thesis by (auto simp: INT_MAX_def)
  qed
  have nl: "\<not> at_limit s c"
    using lim by (cases c) (auto split: option.splits)
  from step_invar[OF Cons.prems(1), of c] obtain a s1 where
    s1: "step s c = Inr (a, s1)" "invar s1" by blast
  have "sint (freq m1) \<le> b + 1" if "mKeyMetaByKey s1 k = Some m1" for k m1
    using step_bound[OF Cons.prems(1) Cons.prems(2) Cons.prems(3) b s1(1) that] by simp
  moreover have "0 \<le> b + 1" using Cons.prems(3) by simp
  moreover have "b + 1 + int (length cs) \<le> 2147483647" using Cons.prems(4) by simp
  ultimately have "overflow_free s1 cs"
    using Cons.IH[OF s1(2)] by blast
  then show ?case using nl s1(1) by simp
qed

lemma short_session_tame:
  assumes "capacity \<noteq> 0" and "length cs \<le> 2147483647"
  shows "tame capacity (cs :: ('k, 'v::default) call list)"
proof -
  from ctor_invar[OF assms(1)] obtain s0 :: "('k, 'v) LFUCache" where
    s0: "LFUCache_ctor capacity = Inr s0" "invar s0" by blast
  from s0(1) have e: "mKeyMetaByKey s0 = Map.empty"
    by (auto simp: LFUCache_ctor_def split: if_splits)
  have "overflow_free s0 cs"
  proof (rule bounded_overflow_free[OF s0(2), of 0])
    show "sint (freq m) \<le> 0" if "mKeyMetaByKey s0 k = Some m" for k m
      using that e by simp
    show "(0::int) \<le> 0" by simp
    show "0 + int (length cs) \<le> 2147483647" using assms(2) by simp
  qed
  with s0(1) show ?thesis by (simp add: tame_def)
qed

end
